theory Spec2Isabelle
  imports Main "HOL-Library.Word" "HOL-Library.DAList"
begin

section \<open>CacheFlow: the shared contract (cache/cache.go)\<close>

text \<open>
  Go's \<^verbatim>\<open>int64\<close> is a 64-bit word read as two's complement: \<open>+\<close> and \<open>-\<close> wrap
  around, comparisons go through \<open>sint\<close>.
\<close>

type_synonym int64 = "64 word"

text \<open>
  \<^verbatim>\<open>type Value interface { Size() int64 }\<close>.
  A value of the interface type is either the nil interface or an implementation:
  \<open>IntValue\<close> is the one of main.go (\<^verbatim>\<open>unsafe.Sizeof\<close> of an int64 is 8), \<open>UserValue\<close>
  stands for any other implementation, given by a payload and the size its \<^verbatim>\<open>Size\<close>
  method reports. Calling \<^verbatim>\<open>Size\<close> on the nil interface panics.
\<close>

datatype Value = nil | IntValue int64 | UserValue string int64

datatype panic = NilDereference

fun Size :: "Value \<Rightarrow> panic + int64" where
  "Size nil = Inl NilDereference"
| "Size (IntValue i) = Inr 8"
| "Size (UserValue p n) = Inr n"

section \<open>The recency list (Go's container/list, as lru.go uses it)\<close>

text \<open>
  A \<^verbatim>\<open>*list.Element\<close> is an address. The list is the sequence of its elements, front
  first. \<^verbatim>\<open>MoveToBack\<close> and \<^verbatim>\<open>Remove\<close> leave the list alone when the element is not
  in it; \<^verbatim>\<open>Front\<close> of the empty list is nil.
\<close>

type_synonym elem = nat

definition list_PushBack :: "elem \<Rightarrow> elem list \<Rightarrow> elem list" where
  "list_PushBack e l = l @ [e]"

definition list_MoveToBack :: "elem \<Rightarrow> elem list \<Rightarrow> elem list" where
  "list_MoveToBack e l = (if e \<in> set l then remove1 e l @ [e] else l)"

definition list_Front :: "elem list \<Rightarrow> elem option" where
  "list_Front l = (case l of [] \<Rightarrow> None | e # _ \<Rightarrow> Some e)"

definition list_Remove :: "elem \<Rightarrow> elem list \<Rightarrow> elem list" where
  "list_Remove e l = remove1 e l"

section \<open>The LRU cache (lru/lru.go)\<close>

record item =
  item_key :: string
  item_value :: Value
  item_size :: int64

text \<open>
  \<open>lru_table\<close> is the Go map from keys to element pointers, \<open>lru_ls\<close> the list,
  \<open>lru_heap\<close> the store of the items the elements point to (shared by the table and
  the list), \<open>lru_next\<close> the next address \<^verbatim>\<open>PushBack\<close> allocates.
\<close>

record LRUCache =
  lru_capacity :: int64
  lru_size :: int64
  lru_ls :: "elem list"
  lru_table :: "(string, elem) alist"
  lru_heap :: "elem \<Rightarrow> item"
  lru_next :: elem

definition blank_item :: item where
  "blank_item = \<lparr>item_key = [], item_value = nil, item_size = 0\<rparr>"

definition lru_New :: "int64 \<Rightarrow> LRUCache" where
  "lru_New capacity =
     \<lparr>lru_capacity = capacity, lru_size = 0, lru_ls = [], lru_table = DAList.empty,
      lru_heap = (\<lambda>_. blank_item), lru_next = 0\<rparr>"

text \<open>
  \<^verbatim>\<open>evictLRU\<close>: while the running total is above the capacity, unlink the front element,
  delete its key from the table and subtract its size; stop when the list is empty.
\<close>

function evictLRU :: "LRUCache \<Rightarrow> LRUCache" where
  "evictLRU c =
     (if sint (lru_capacity c) < sint (lru_size c) then
        (case list_Front (lru_ls c) of
           None \<Rightarrow> c
         | Some front \<Rightarrow>
             (let it = lru_heap c front in
              evictLRU (c\<lparr>lru_ls := list_Remove front (lru_ls c),
                          lru_table := DAList.delete (item_key it) (lru_table c),
                          lru_size := lru_size c - item_size it\<rparr>)))
      else c)"
  by pat_completeness auto
termination
  by (relation "measure (\<lambda>c. length (lru_ls c))")
     (auto simp: list_Front_def list_Remove_def split: list.splits)

text \<open>
  The two branches of \<^verbatim>\<open>Put\<close> before its eviction pass (lines 34 to 50); \<open>n\<close> is
  \<^verbatim>\<open>value.Size()\<close>.
\<close>

definition lru_Put_store :: "LRUCache \<Rightarrow> string \<Rightarrow> Value \<Rightarrow> int64 \<Rightarrow> LRUCache" where
  "lru_Put_store c key v n =
     (case DAList.lookup (lru_table c) key of
        Some entry \<Rightarrow>
          (let it = lru_heap c entry in
           c\<lparr>lru_size := lru_size c + (n - item_size it),
             lru_heap := (lru_heap c)(entry := it\<lparr>item_value := v, item_size := n\<rparr>),
             lru_ls := list_MoveToBack entry (lru_ls c)\<rparr>)
      | None \<Rightarrow>
          (let it = \<lparr>item_key = key, item_value = v, item_size = n\<rparr>;
               e = lru_next c in
           c\<lparr>lru_heap := (lru_heap c)(e := it),
             lru_next := Suc e,
             lru_ls := list_PushBack e (lru_ls c),
             lru_table := DAList.update key e (lru_table c),
             lru_size := lru_size c + item_size it\<rparr>))"

definition lru_Put :: "LRUCache \<Rightarrow> string \<Rightarrow> Value \<Rightarrow> panic + LRUCache" where
  "lru_Put c key v =
     (case Size v of
        Inl p \<Rightarrow> Inl p
      | Inr n \<Rightarrow> Inr (evictLRU (lru_Put_store c key v n)))"

definition lru_Get :: "LRUCache \<Rightarrow> string \<Rightarrow> (Value \<times> bool) \<times> LRUCache" where
  "lru_Get c key =
     (case DAList.lookup (lru_table c) key of
        None \<Rightarrow> ((nil, False), c)
      | Some entry \<Rightarrow>
          (let it = lru_heap c entry in
           ((item_value it, True), c\<lparr>lru_ls := list_MoveToBack entry (lru_ls c)\<rparr>)))"

text \<open>
  \<^verbatim>\<open>List\<close>: one singleton map (here a pair) for each entry of the table. Go leaves the
  order of a range over a map open; the claims speak of the listing as a set.
\<close>

definition lru_List :: "LRUCache \<Rightarrow> (string \<times> Value) list" where
  "lru_List c =
     map (\<lambda>(key, entry). (key, item_value (lru_heap c entry))) (DAList.impl_of (lru_table c))"

text \<open>
  A caller (main.go is one) issues \<^verbatim>\<open>Put\<close> and \<^verbatim>\<open>Get\<close> calls one after the other;
  a panic ends the run.
\<close>

datatype lru_op = OpPut string Value | OpGet string

fun lru_run :: "LRUCache \<Rightarrow> lru_op list \<Rightarrow> panic + LRUCache" where
  "lru_run c [] = Inr c"
| "lru_run c (OpPut key v # ops) =
     (case lru_Put c key v of Inl p \<Rightarrow> Inl p | Inr c' \<Rightarrow> lru_run c' ops)"
| "lru_run c (OpGet key # ops) = lru_run (snd (lru_Get c key)) ops"

subsection \<open>What the claims about the LRU cache speak of\<close>

text \<open>The entries present: the items the table leads to.\<close>

definition lru_entries :: "LRUCache \<Rightarrow> item list" where
  "lru_entries c = map (\<lambda>(key, entry). lru_heap c entry) (DAList.impl_of (lru_table c))"

text \<open>The sum of their sizes, as a number (no wrap-around).\<close>

definition lru_bytes :: "LRUCache \<Rightarrow> int" where
  "lru_bytes c = (\<Sum>it\<leftarrow>lru_entries c. sint (item_size it))"

definition lru_nonneg :: "LRUCache \<Rightarrow> bool" where
  "lru_nonneg c \<longleftrightarrow> (\<forall>it\<in>set (lru_entries c). 0 \<le> sint (item_size it))"

text \<open>
  The values of a run report non-negative sizes (the nil interface reports none); and,
  stronger, the capacity plus any one reported size still fits an int64.
\<close>

fun lru_op_nonneg :: "lru_op \<Rightarrow> bool" where
  "lru_op_nonneg (OpPut key v) = (case Size v of Inl p \<Rightarrow> False | Inr n \<Rightarrow> 0 \<le> sint n)"
| "lru_op_nonneg (OpGet key) = True"

fun lru_op_fits :: "int64 \<Rightarrow> lru_op \<Rightarrow> bool" where
  "lru_op_fits cap (OpPut key v) =
     (case Size v of Inl p \<Rightarrow> False | Inr n \<Rightarrow> 0 \<le> sint n \<and> sint cap + sint n < 2 ^ 63)"
| "lru_op_fits cap (OpGet key) = True"

text \<open>
  Table and list hold the same entries: the list has no element twice, and the table is
  exactly the list's elements, each under the key of its own item. (The table has no key
  twice by its type.) Elements in use lie below the next address to allocate.
\<close>

definition lru_consistent :: "LRUCache \<Rightarrow> bool" where
  "lru_consistent c \<longleftrightarrow>
     distinct (lru_ls c) \<and>
     set (DAList.impl_of (lru_table c)) = (\<lambda>e. (item_key (lru_heap c e), e)) ` set (lru_ls c) \<and>
     (\<forall>e\<in>set (lru_ls c). e < lru_next c)"

text \<open>The running total equals the sum of the recorded sizes, read as numbers.\<close>

definition lru_inv_exact :: "LRUCache \<Rightarrow> bool" where
  "lru_inv_exact c \<longleftrightarrow> lru_consistent c \<and> sint (lru_size c) = lru_bytes c"

text \<open>The running total equals the sum of the recorded sizes in int64 arithmetic.\<close>

definition lru_inv :: "LRUCache \<Rightarrow> bool" where
  "lru_inv c \<longleftrightarrow>
     lru_consistent c \<and> lru_size c = (\<Sum>e\<leftarrow>lru_ls c. item_size (lru_heap c e))"

subsection \<open>Least-recently-touched order, in the words of the specification\<close>

text \<open>The recency sequence of a cache: the items of its list, oldest first.\<close>

definition lru_items :: "LRUCache \<Rightarrow> item list" where
  "lru_items c = map (lru_heap c) (lru_ls c)"

text \<open>
  The reference the code is compared with follows the specification, not the code: a
  sequence of entries, oldest first, with sizes as numbers. A touch (a \<^verbatim>\<open>Get\<close> that finds
  the key) moves the entry to the newest position. \<^verbatim>\<open>Put\<close> replaces the entry of the key,
  if there is one, by the new entry at the newest position. Eviction: while the total
  exceeds the capacity, remove the entry at the oldest end, until the bound holds or the
  sequence is empty.
\<close>

definition spec_touch :: "string \<Rightarrow> item list \<Rightarrow> item list" where
  "spec_touch k xs =
     filter (\<lambda>it. item_key it \<noteq> k) xs @ filter (\<lambda>it. item_key it = k) xs"

fun spec_evict :: "int \<Rightarrow> item list \<Rightarrow> item list" where
  "spec_evict cap [] = []"
| "spec_evict cap (x # xs) =
     (if cap < (\<Sum>it\<leftarrow>x # xs. sint (item_size it)) then spec_evict cap xs else x # xs)"

definition spec_Put :: "int \<Rightarrow> string \<Rightarrow> Value \<Rightarrow> int64 \<Rightarrow> item list \<Rightarrow> item list" where
  "spec_Put cap k v n xs =
     spec_evict cap
       (filter (\<lambda>it. item_key it \<noteq> k) xs @ [\<lparr>item_key = k, item_value = v, item_size = n\<rparr>])"

fun spec_run :: "int \<Rightarrow> item list \<Rightarrow> lru_op list \<Rightarrow> item list" where
  "spec_run cap xs [] = xs"
| "spec_run cap xs (OpPut k v # ops) =
     (case Size v of Inl p \<Rightarrow> xs | Inr n \<Rightarrow> spec_run cap (spec_Put cap k v n xs) ops)"
| "spec_run cap xs (OpGet k # ops) = spec_run cap (spec_touch k xs) ops"

section \<open>The TTL cache (ttlcache/ttlcache.go)\<close>

record titem =
  titem_value :: Value
  titem_expiry :: int64

record TTLCache =
  ttl_table :: "(string, titem) alist"

definition ttl_New :: TTLCache where
  "ttl_New = \<lparr>ttl_table = DAList.empty\<rparr>"

text \<open>
  The clock is an input: \<open>now\<close> is \<^verbatim>\<open>time.Now().UnixNano()\<close> at the call. A
  \<^verbatim>\<open>time.Duration\<close> is an int64 of nanoseconds, and \<^verbatim>\<open>time.Now().Add(ttl).UnixNano()\<close>
  is \<open>now + ttl\<close> in int64 arithmetic (\<^verbatim>\<open>UnixNano\<close> multiplies and adds int64 values, so
  an instant past the int64 range wraps around).
\<close>

definition ttl_Put :: "int64 \<Rightarrow> TTLCache \<Rightarrow> string \<Rightarrow> Value \<Rightarrow> int64 \<Rightarrow> TTLCache" where
  "ttl_Put now c key v ttl =
     (let it = \<lparr>titem_value = v,
                 titem_expiry = (if 0 < sint ttl then now + ttl else 0)\<rparr>
      in c\<lparr>ttl_table := DAList.update key it (ttl_table c)\<rparr>)"

text \<open>The test of lines 46 and 61: \<^verbatim>\<open>it.expiry > 0 && now > it.expiry\<close>.\<close>

definition ttl_expired :: "int64 \<Rightarrow> titem \<Rightarrow> bool" where
  "ttl_expired now it \<longleftrightarrow> 0 < sint (titem_expiry it) \<and> sint (titem_expiry it) < sint now"

definition ttl_Get :: "int64 \<Rightarrow> TTLCache \<Rightarrow> string \<Rightarrow> (Value \<times> bool) \<times> TTLCache" where
  "ttl_Get now c key =
     (case DAList.lookup (ttl_table c) key of
        None \<Rightarrow> ((nil, False), c)
      | Some it \<Rightarrow>
          if ttl_expired now it
          then ((nil, False), c\<lparr>ttl_table := DAList.delete key (ttl_table c)\<rparr>)
          else ((titem_value it, True), c))"

text \<open>
  \<^verbatim>\<open>List\<close> ranges over the entries of the table; deleting the entry at hand does not
  disturb the rest of the range.
\<close>

fun ttl_List_loop ::
  "int64 \<Rightarrow> (string \<times> titem) list \<Rightarrow> TTLCache \<Rightarrow> (string \<times> Value) list
     \<Rightarrow> (string \<times> Value) list \<times> TTLCache" where
  "ttl_List_loop now [] c listContent = (listContent, c)"
| "ttl_List_loop now ((key, it) # rest) c listContent =
     (if ttl_expired now it
      then ttl_List_loop now rest (c\<lparr>ttl_table := DAList.delete key (ttl_table c)\<rparr>) listContent
      else ttl_List_loop now rest c (listContent @ [(key, titem_value it)]))"

definition ttl_List :: "int64 \<Rightarrow> TTLCache \<Rightarrow> (string \<times> Value) list \<times> TTLCache" where
  "ttl_List now c = ttl_List_loop now (DAList.impl_of (ttl_table c)) c []"

text \<open>A caller's run: each call with the clock reading it sees.\<close>

datatype ttl_op = TPut string Value int64 | TGet string | TList

fun ttl_step :: "TTLCache \<Rightarrow> int64 \<times> ttl_op \<Rightarrow> TTLCache" where
  "ttl_step c (now, TPut key v ttl) = ttl_Put now c key v ttl"
| "ttl_step c (now, TGet key) = snd (ttl_Get now c key)"
| "ttl_step c (now, TList) = snd (ttl_List now c)"

fun ttl_run :: "TTLCache \<Rightarrow> (int64 \<times> ttl_op) list \<Rightarrow> TTLCache" where
  "ttl_run c [] = c"
| "ttl_run c (x # xs) = ttl_run (ttl_step c x) xs"

fun ttl_puts_key :: "string \<Rightarrow> int64 \<times> ttl_op \<Rightarrow> bool" where
  "ttl_puts_key k (now, TPut key v ttl) = (key = k)"
| "ttl_puts_key k (now, TGet key) = False"
| "ttl_puts_key k (now, TList) = False"

section \<open>Auxiliary facts\<close>

subsection \<open>int64 sums\<close>

lemma sint_of_int64:
  "- (2 ^ 63) \<le> x \<Longrightarrow> x < 2 ^ 63 \<Longrightarrow> sint (word_of_int x :: int64) = x"
  by (simp add: sint_sbintrunc' signed_take_bit_int_eq_self)

lemma word_sum_sint:
  "(\<Sum>x\<leftarrow>xs. f x :: int64) = word_of_int (\<Sum>x\<leftarrow>xs. sint (f x))"
  by (induction xs) simp_all

lemma sint64_range: "- (2 ^ 63) \<le> sint (w :: int64)" "sint (w :: int64) < 2 ^ 63"
  using sint_ge [of w] sint_lt [of w] by simp_all

subsection \<open>Table, list and sizes of a consistent cache\<close>

lemma lookup_iff:
  "lru_consistent c \<Longrightarrow>
     DAList.lookup (lru_table c) k = Some e \<longleftrightarrow> e \<in> set (lru_ls c) \<and> item_key (lru_heap c e) = k"
  by (auto simp: lru_consistent_def DAList.lookup.rep_eq)

lemma consistentI:
  assumes "distinct (lru_ls c)" and "\<forall>e\<in>set (lru_ls c). e < lru_next c"
    and "\<And>k e. DAList.lookup (lru_table c) k = Some e \<longleftrightarrow> e \<in> set (lru_ls c) \<and> item_key (lru_heap c e) = k"
  shows "lru_consistent c"
proof -
  have "set (DAList.impl_of (lru_table c)) = (\<lambda>e. (item_key (lru_heap c e), e)) ` set (lru_ls c)"
  proof (rule set_eqI)
    fix p :: "string \<times> elem"
    obtain k e where p: "p = (k, e)" by (cases p)
    have "(k, e) \<in> set (DAList.impl_of (lru_table c)) \<longleftrightarrow> DAList.lookup (lru_table c) k = Some e"
      by (simp add: DAList.lookup.rep_eq)
    also have "\<dots> \<longleftrightarrow> e \<in> set (lru_ls c) \<and> item_key (lru_heap c e) = k" by (rule assms(3))
    also have "\<dots> \<longleftrightarrow> (k, e) \<in> (\<lambda>e. (item_key (lru_heap c e), e)) ` set (lru_ls c)" by auto
    finally show "p \<in> set (DAList.impl_of (lru_table c)) \<longleftrightarrow> p \<in> (\<lambda>e. (item_key (lru_heap c e), e)) ` set (lru_ls c)"
      by (simp add: p)
  qed
  with assms(1,2) show ?thesis by (simp add: lru_consistent_def)
qed

lemma lru_entries_set:
  "lru_consistent c \<Longrightarrow> set (lru_entries c) = lru_heap c ` set (lru_ls c)"
  unfolding lru_entries_def lru_consistent_def
  by (force simp: image_iff)

lemma lru_nonneg_ls:
  "lru_consistent c \<Longrightarrow> lru_nonneg c \<longleftrightarrow> (\<forall>e\<in>set (lru_ls c). 0 \<le> sint (item_size (lru_heap c e)))"
  by (simp add: lru_nonneg_def lru_entries_set)

lemma lru_bytes_ls:
  assumes "lru_consistent c"
  shows "lru_bytes c = (\<Sum>e\<leftarrow>lru_ls c. sint (item_size (lru_heap c e)))"
proof -
  let ?al = "DAList.impl_of (lru_table c)"
  let ?g = "\<lambda>e. (item_key (lru_heap c e), e)"
  let ?f = "\<lambda>p. sint (item_size (lru_heap c (snd p)))"
  have d: "distinct ?al" using DAList.impl_of_distinct [of "lru_table c"] by (simp add: distinct_map)
  have s: "set ?al = ?g ` set (lru_ls c)" and dl: "distinct (lru_ls c)"
    using assms by (simp_all add: lru_consistent_def)
  have inj: "inj_on ?g (set (lru_ls c))" by (rule inj_onI) simp
  have "lru_bytes c = sum_list (map ?f ?al)"
    by (simp add: lru_bytes_def lru_entries_def comp_def case_prod_unfold)
  also have "\<dots> = sum ?f (set ?al)" using d by (rule sum_list_distinct_conv_sum_set)
  also have "\<dots> = sum (?f \<circ> ?g) (set (lru_ls c))" unfolding s using inj by (rule sum.reindex)
  also have "\<dots> = (\<Sum>e\<leftarrow>lru_ls c. sint (item_size (lru_heap c e)))"
    using dl by (simp add: sum_list_distinct_conv_sum_set comp_def)
  finally show ?thesis .
qed

subsection \<open>The store step of \<^verbatim>\<open>Put\<close>\<close>

text \<open>Its two branches keep table and list consistent.\<close>

lemma store_update_consistent:
  assumes c: "lru_consistent c" and l: "DAList.lookup (lru_table c) key = Some entry"
  shows "lru_consistent (lru_Put_store c key v n)"
proof -
  from c l have mem: "entry \<in> set (lru_ls c)" and k: "item_key (lru_heap c entry) = key"
    by (simp_all add: lookup_iff)
  let ?c' = "lru_Put_store c key v n"
  have ls: "lru_ls ?c' = remove1 entry (lru_ls c) @ [entry]"
    and tb: "lru_table ?c' = lru_table c" and nx: "lru_next ?c' = lru_next c"
    and hp: "lru_heap ?c' = (lru_heap c)(entry := (lru_heap c entry)\<lparr>item_value := v, item_size := n\<rparr>)"
    using l mem by (simp_all add: lru_Put_store_def list_MoveToBack_def Let_def)
  have keys: "item_key (lru_heap ?c' e) = item_key (lru_heap c e)" for e
    by (simp add: hp)
  have d: "distinct (lru_ls c)" and b: "\<forall>e\<in>set (lru_ls c). e < lru_next c"
    using c by (simp_all add: lru_consistent_def)
  have set_ls: "set (lru_ls ?c') = set (lru_ls c)"
    using mem d by (auto simp: ls)
  show ?thesis
  proof (rule consistentI)
    show "distinct (lru_ls ?c')" using d by (simp add: ls)
    show "\<forall>e\<in>set (lru_ls ?c'). e < lru_next ?c'" using b by (simp add: set_ls nx)
    show "DAList.lookup (lru_table ?c') k' = Some e \<longleftrightarrow> e \<in> set (lru_ls ?c') \<and> item_key (lru_heap ?c' e) = k'" for k' e
      by (simp only: tb set_ls keys lookup_iff [OF c])
  qed
qed

lemma store_insert_consistent:
  assumes c: "lru_consistent c" and l: "DAList.lookup (lru_table c) key = None"
  shows "lru_consistent (lru_Put_store c key v n)"
proof -
  let ?c' = "lru_Put_store c key v n"
  let ?e = "lru_next c"
  have ls: "lru_ls ?c' = lru_ls c @ [?e]"
    and tb: "lru_table ?c' = DAList.update key ?e (lru_table c)" and nx: "lru_next ?c' = Suc ?e"
    and hp: "lru_heap ?c' = (lru_heap c)(?e := \<lparr>item_key = key, item_value = v, item_size = n\<rparr>)"
    using l by (simp_all add: lru_Put_store_def list_PushBack_def Let_def)
  have d: "distinct (lru_ls c)" and b: "\<forall>e\<in>set (lru_ls c). e < lru_next c"
    using c by (simp_all add: lru_consistent_def)
  have fresh: "?e \<notin> set (lru_ls c)" using b by auto
  from l have nokey: "\<not> (e \<in> set (lru_ls c) \<and> item_key (lru_heap c e) = key)" for e
    using lookup_iff [OF c, of key e] by simp
  show ?thesis
  proof (rule consistentI)
    show "distinct (lru_ls ?c')" using d fresh by (simp add: ls)
    show "\<forall>e\<in>set (lru_ls ?c'). e < lru_next ?c'" using b by (auto simp: ls nx)
    show "DAList.lookup (lru_table ?c') k' = Some e \<longleftrightarrow> e \<in> set (lru_ls ?c') \<and> item_key (lru_heap ?c' e) = k'" for k' e
      using fresh nokey [of e] by (auto simp: tb ls hp DAList.lookup_update lookup_iff [OF c])
  qed
qed

lemma store_update_fields:
  assumes c: "lru_consistent c" and l: "DAList.lookup (lru_table c) key = Some entry"
  shows "lru_ls (lru_Put_store c key v n) = remove1 entry (lru_ls c) @ [entry]"
    and "lru_table (lru_Put_store c key v n) = lru_table c"
    and "lru_heap (lru_Put_store c key v n) =
           (lru_heap c)(entry := (lru_heap c entry)\<lparr>item_value := v, item_size := n\<rparr>)"
    and "lru_size (lru_Put_store c key v n) = lru_size c + (n - item_size (lru_heap c entry))"
    and "lru_capacity (lru_Put_store c key v n) = lru_capacity c"
    and "entry \<in> set (lru_ls c)"
    and "entry \<notin> set (remove1 entry (lru_ls c))"
proof -
  from c l show mem: "entry \<in> set (lru_ls c)" by (simp add: lookup_iff)
  from c have "distinct (lru_ls c)" by (simp add: lru_consistent_def)
  then show "entry \<notin> set (remove1 entry (lru_ls c))" by simp
  show "lru_ls (lru_Put_store c key v n) = remove1 entry (lru_ls c) @ [entry]"
    using l mem by (simp add: lru_Put_store_def list_MoveToBack_def Let_def)
qed (simp_all add: l lru_Put_store_def Let_def)

lemma store_insert_fields:
  assumes c: "lru_consistent c" and l: "DAList.lookup (lru_table c) key = None"
  shows "lru_ls (lru_Put_store c key v n) = lru_ls c @ [lru_next c]"
    and "lru_table (lru_Put_store c key v n) = DAList.update key (lru_next c) (lru_table c)"
    and "lru_heap (lru_Put_store c key v n) =
           (lru_heap c)(lru_next c := \<lparr>item_key = key, item_value = v, item_size = n\<rparr>)"
    and "lru_size (lru_Put_store c key v n) = lru_size c + n"
    and "lru_capacity (lru_Put_store c key v n) = lru_capacity c"
    and "lru_next c \<notin> set (lru_ls c)"
proof -
  from c have "\<forall>e\<in>set (lru_ls c). e < lru_next c" by (simp add: lru_consistent_def)
  then show "lru_next c \<notin> set (lru_ls c)" by auto
qed (simp_all add: l lru_Put_store_def list_PushBack_def Let_def)

lemma store_update_sizes:
  assumes c: "lru_consistent c" and l: "DAList.lookup (lru_table c) key = Some entry"
  shows "map (\<lambda>e. item_size (lru_heap (lru_Put_store c key v n) e)) (lru_ls (lru_Put_store c key v n))
         = map (\<lambda>e. item_size (lru_heap c e)) (remove1 entry (lru_ls c)) @ [n]"
  using store_update_fields(7) [OF c l]
  by (simp add: store_update_fields(1,3) [OF c l] cong: map_cong)

lemma store_insert_sizes:
  assumes c: "lru_consistent c" and l: "DAList.lookup (lru_table c) key = None"
  shows "map (\<lambda>e. item_size (lru_heap (lru_Put_store c key v n) e)) (lru_ls (lru_Put_store c key v n))
         = map (\<lambda>e. item_size (lru_heap c e)) (lru_ls c) @ [n]"
  using store_insert_fields(6) [OF c l]
  by (simp add: store_insert_fields(1,3) [OF c l] cong: map_cong)

lemma store_consistent:
  "lru_consistent c \<Longrightarrow> lru_consistent (lru_Put_store c key v n)"
  by (cases "DAList.lookup (lru_table c) key")
     (simp_all add: store_insert_consistent store_update_consistent)

lemma store_inv:
  assumes "lru_inv c"
  shows "lru_inv (lru_Put_store c key v n)"
proof -
  from assms have c: "lru_consistent c"
    and s: "lru_size c = (\<Sum>e\<leftarrow>lru_ls c. item_size (lru_heap c e))"
    by (simp_all add: lru_inv_def)
  let ?c' = "lru_Put_store c key v n"
  have "lru_size ?c' = sum_list (map (\<lambda>e. item_size (lru_heap ?c' e)) (lru_ls ?c'))"
  proof (cases "DAList.lookup (lru_table c) key")
    case None
    show ?thesis
      by (simp only: store_insert_sizes [OF c None] store_insert_fields(4) [OF c None] s) simp
  next
    case (Some entry)
    have "(\<Sum>e\<leftarrow>lru_ls c. item_size (lru_heap c e))
          = item_size (lru_heap c entry) + (\<Sum>e\<leftarrow>remove1 entry (lru_ls c). item_size (lru_heap c e))"
      using store_update_fields(6) [OF c Some] by (rule sum_list_map_remove1)
    then show ?thesis
      by (simp only: store_update_sizes [OF c Some] store_update_fields(4) [OF c Some] s) simp
  qed
  with store_consistent [OF c] show ?thesis by (simp add: lru_inv_def)
qed

subsection \<open>The eviction loop\<close>

lemma evict_step_consistent:
  assumes c: "lru_consistent c" and f: "lru_ls c = front # rest"
  shows "lru_consistent (c\<lparr>lru_ls := rest,
            lru_table := DAList.delete (item_key (lru_heap c front)) (lru_table c),
            lru_size := s\<rparr>)" (is "lru_consistent ?c'")
proof -
  have d: "distinct (front # rest)" and b: "\<forall>e\<in>set (front # rest). e < lru_next c"
    using c f by (simp_all add: lru_consistent_def)
  have uniq: "e \<in> set rest \<Longrightarrow> item_key (lru_heap c e) \<noteq> item_key (lru_heap c front)" for e
  proof
    assume e: "e \<in> set rest" and k: "item_key (lru_heap c e) = item_key (lru_heap c front)"
    have "DAList.lookup (lru_table c) (item_key (lru_heap c front)) = Some e"
      using e k by (simp add: lookup_iff [OF c] f)
    moreover have "DAList.lookup (lru_table c) (item_key (lru_heap c front)) = Some front"
      by (simp add: lookup_iff [OF c] f)
    ultimately have "e = front" by simp
    with e d show False by simp
  qed
  show ?thesis
  proof (rule consistentI)
    show "distinct (lru_ls ?c')" using d by simp
    show "\<forall>e\<in>set (lru_ls ?c'). e < lru_next ?c'" using b by simp
    show "DAList.lookup (lru_table ?c') k' = Some e \<longleftrightarrow> e \<in> set (lru_ls ?c') \<and> item_key (lru_heap ?c' e) = k'" for k' e
      using uniq [of e] d by (auto simp: lookup_iff [OF c] f)
  qed
qed

lemma evict_step_inv:
  assumes i: "lru_inv c" and f: "lru_ls c = front # rest"
  shows "lru_inv (c\<lparr>lru_ls := rest,
            lru_table := DAList.delete (item_key (lru_heap c front)) (lru_table c),
            lru_size := lru_size c - item_size (lru_heap c front)\<rparr>)"
  using i evict_step_consistent [of c front rest, OF _ f]
  by (simp add: lru_inv_def f)

declare evictLRU.simps [simp del]

lemma evictLRU_inv: "lru_inv c \<Longrightarrow> lru_inv (evictLRU c)"
proof (induction c rule: evictLRU.induct)
  case (1 c)
  show ?case
  proof (cases "sint (lru_capacity c) < sint (lru_size c)")
    case False
    then show ?thesis using "1.prems" by (simp add: evictLRU.simps [of c])
  next
    case True
    show ?thesis
    proof (cases "lru_ls c")
      case Nil
      then show ?thesis using "1.prems" True by (simp add: evictLRU.simps [of c] list_Front_def)
    next
      case (Cons front rest)
      have fr: "list_Front (lru_ls c) = Some front" by (simp add: Cons list_Front_def)
      have "lru_inv (evictLRU (c\<lparr>lru_ls := list_Remove front (lru_ls c),
                          lru_table := DAList.delete (item_key (lru_heap c front)) (lru_table c),
                          lru_size := lru_size c - item_size (lru_heap c front)\<rparr>))"
        using True fr
        by (rule "1.IH" [OF _ _ refl]) (simp add: Cons list_Remove_def evict_step_inv [OF "1.prems" Cons])
      then show ?thesis using True fr by (simp add: evictLRU.simps [of c] Let_def)
    qed
  qed
qed

lemma lru_size_exact:
  assumes i: "lru_inv c" and lo: "- (2 ^ 63) \<le> lru_bytes c" and hi: "lru_bytes c < 2 ^ 63"
  shows "sint (lru_size c) = lru_bytes c"
proof -
  from i have c: "lru_consistent c"
    and s: "lru_size c = (\<Sum>e\<leftarrow>lru_ls c. item_size (lru_heap c e))"
    by (simp_all add: lru_inv_def)
  have "lru_size c = word_of_int (lru_bytes c)"
    by (simp only: s lru_bytes_ls [OF c] word_sum_sint [symmetric])
  with lo hi show ?thesis by (simp add: sint_of_int64)
qed

lemma lru_bytes_nonneg:
  assumes c: "lru_consistent c" and n: "lru_nonneg c"
  shows "0 \<le> lru_bytes c"
  using n unfolding lru_bytes_def lru_nonneg_def
  by (auto intro!: sum_list_nonneg)

lemma evict_step_bytes:
  assumes c: "lru_consistent c" and f: "lru_ls c = front # rest"
  shows "lru_bytes (c\<lparr>lru_ls := rest,
            lru_table := DAList.delete (item_key (lru_heap c front)) (lru_table c),
            lru_size := s\<rparr>) = lru_bytes c - sint (item_size (lru_heap c front))"
  by (simp add: lru_bytes_ls [OF evict_step_consistent [OF c f]] lru_bytes_ls [OF c] f)

lemma evict_step_nonneg:
  assumes c: "lru_consistent c" and f: "lru_ls c = front # rest" and n: "lru_nonneg c"
  shows "lru_nonneg (c\<lparr>lru_ls := rest,
            lru_table := DAList.delete (item_key (lru_heap c front)) (lru_table c),
            lru_size := s\<rparr>)"
  using n by (simp add: lru_nonneg_ls [OF evict_step_consistent [OF c f]] lru_nonneg_ls [OF c] f)

lemma evictLRU_capacity: "lru_capacity (evictLRU c) = lru_capacity c"
proof (induction c rule: evictLRU.induct)
  case (1 c)
  show ?case
  proof (cases "sint (lru_capacity c) < sint (lru_size c)")
    case False
    then show ?thesis by (simp add: evictLRU.simps [of c])
  next
    case True
    show ?thesis
    proof (cases "lru_ls c")
      case Nil
      then show ?thesis using True by (simp add: evictLRU.simps [of c] list_Front_def)
    next
      case (Cons front rest)
      have fr: "list_Front (lru_ls c) = Some front" by (simp add: Cons list_Front_def)
      show ?thesis
        using "1.IH" [OF True fr refl] True fr by (simp add: evictLRU.simps [of c] Let_def)
    qed
  qed
qed

lemma evictLRU_bound:
  assumes "lru_inv c" and "lru_nonneg c" and "lru_bytes c < 2 ^ 63" and "0 \<le> sint (lru_capacity c)"
  shows "lru_nonneg (evictLRU c) \<and> lru_bytes (evictLRU c) \<le> sint (lru_capacity c)"
  using assms
proof (induction c rule: evictLRU.induct)
  case (1 c)
  note i = \<open>lru_inv c\<close> and n = \<open>lru_nonneg c\<close> and hi = \<open>lru_bytes c < 2 ^ 63\<close>
    and cap = \<open>0 \<le> sint (lru_capacity c)\<close>
  from i have c: "lru_consistent c" by (simp add: lru_inv_def)
  have lo: "0 \<le> lru_bytes c" using c n by (rule lru_bytes_nonneg)
  have ex: "sint (lru_size c) = lru_bytes c" using i lo hi by (intro lru_size_exact) simp_all
  show ?case
  proof (cases "sint (lru_capacity c) < sint (lru_size c)")
    case False
    then show ?thesis using n ex by (simp add: evictLRU.simps [of c])
  next
    case True
    show ?thesis
    proof (cases "lru_ls c")
      case Nil
      then have "lru_bytes c = 0" by (simp add: lru_bytes_ls [OF c])
      then show ?thesis using True ex cap by simp
    next
      case (Cons front rest)
      have fr: "list_Front (lru_ls c) = Some front" by (simp add: Cons list_Front_def)
      let ?c1 = "c\<lparr>lru_ls := list_Remove front (lru_ls c),
                   lru_table := DAList.delete (item_key (lru_heap c front)) (lru_table c),
                   lru_size := lru_size c - item_size (lru_heap c front)\<rparr>"
      have c1: "?c1 = c\<lparr>lru_ls := rest,
                   lru_table := DAList.delete (item_key (lru_heap c front)) (lru_table c),
                   lru_size := lru_size c - item_size (lru_heap c front)\<rparr>"
        by (simp add: Cons list_Remove_def)
      have fs: "0 \<le> sint (item_size (lru_heap c front))"
        using n by (simp add: lru_nonneg_ls [OF c] Cons)
      have i1: "lru_inv ?c1" unfolding c1 using i Cons by (rule evict_step_inv)
      have n1: "lru_nonneg ?c1" unfolding c1 using c Cons n by (rule evict_step_nonneg)
      have b1: "lru_bytes ?c1 < 2 ^ 63"
        unfolding c1 using hi fs by (simp add: evict_step_bytes [OF c Cons])
      have "lru_nonneg (evictLRU ?c1) \<and> lru_bytes (evictLRU ?c1) \<le> sint (lru_capacity ?c1)"
        using True fr refl i1 n1 b1 by (rule "1.IH") (simp add: cap)
      then show ?thesis using True fr by (simp add: evictLRU.simps [of c] Let_def)
    qed
  qed
qed

text \<open>Sizes as numbers across the store step.\<close>

lemma store_bytes:
  assumes c: "lru_consistent c"
  shows "lru_bytes (lru_Put_store c key v n) =
           (case DAList.lookup (lru_table c) key of
              None \<Rightarrow> lru_bytes c + sint n
            | Some entry \<Rightarrow> lru_bytes c - sint (item_size (lru_heap c entry)) + sint n)"
proof -
  let ?c' = "lru_Put_store c key v n"
  have b': "lru_bytes ?c' = sum_list (map sint (map (\<lambda>e. item_size (lru_heap ?c' e)) (lru_ls ?c')))"
    by (simp add: lru_bytes_ls [OF store_consistent [OF c]] comp_def)
  show ?thesis
  proof (cases "DAList.lookup (lru_table c) key")
    case None
    show ?thesis
      by (simp add: b' store_insert_sizes [OF c None] lru_bytes_ls [OF c] None comp_def)
  next
    case (Some entry)
    have "(\<Sum>e\<leftarrow>lru_ls c. sint (item_size (lru_heap c e)))
          = sint (item_size (lru_heap c entry))
            + (\<Sum>e\<leftarrow>remove1 entry (lru_ls c). sint (item_size (lru_heap c e)))"
      using store_update_fields(6) [OF c Some] by (rule sum_list_map_remove1)
    then show ?thesis
      by (simp add: b' store_update_sizes [OF c Some] lru_bytes_ls [OF c] Some comp_def)
  qed
qed

lemma store_nonneg:
  assumes c: "lru_consistent c" and n: "lru_nonneg c" and v: "0 \<le> sint n"
  shows "lru_nonneg (lru_Put_store c key v n)"
proof -
  let ?c' = "lru_Put_store c key v n"
  have old: "\<forall>e\<in>set (lru_ls c). 0 \<le> sint (item_size (lru_heap c e))"
    using n by (simp add: lru_nonneg_ls [OF c])
  have "\<forall>e\<in>set (lru_ls ?c'). 0 \<le> sint (item_size (lru_heap ?c' e))"
  proof (cases "DAList.lookup (lru_table c) key")
    case None
    show ?thesis using old v by (auto simp: store_insert_fields(1,3) [OF c None])
  next
    case (Some entry)
    have "set (remove1 entry (lru_ls c)) \<subseteq> set (lru_ls c)" by (rule set_remove1_subset)
    then show ?thesis using old v by (auto simp: store_update_fields(1,3) [OF c Some])
  qed
  then show ?thesis by (simp add: lru_nonneg_ls [OF store_consistent [OF c]])
qed

lemma store_capacity: "lru_capacity (lru_Put_store c key v n) = lru_capacity c"
  by (simp add: lru_Put_store_def Let_def split: option.splits)

subsection \<open>\<^verbatim>\<open>Get\<close>\<close>

text \<open>It moves one element to the back and changes nothing else.\<close>

lemma Get_state:
  "snd (lru_Get c key) = c \<or>
   (\<exists>entry. DAList.lookup (lru_table c) key = Some entry \<and>
      snd (lru_Get c key) = c\<lparr>lru_ls := list_MoveToBack entry (lru_ls c)\<rparr>)"
  by (simp add: lru_Get_def Let_def split: option.splits)

lemma set_remove1_insert: "e \<in> set l \<Longrightarrow> insert e (set (remove1 e l)) = set l"
  by (induction l) auto

lemma set_MoveToBack: "set (list_MoveToBack e l) = set l"
  by (simp add: list_MoveToBack_def set_remove1_insert)

lemma distinct_MoveToBack: "distinct l \<Longrightarrow> distinct (list_MoveToBack e l)"
  by (simp add: list_MoveToBack_def)

lemma sum_MoveToBack:
  "sum_list (map f (list_MoveToBack e l)) = (sum_list (map f l) :: 'a :: comm_monoid_add)"
  by (simp add: list_MoveToBack_def sum_list_map_remove1 [of e l f] add.commute)

lemma move_inv:
  assumes i: "lru_inv c"
  shows "lru_inv (c\<lparr>lru_ls := list_MoveToBack entry (lru_ls c)\<rparr>)" (is "lru_inv ?c'")
proof -
  from i have c: "lru_consistent c"
    and s: "lru_size c = (\<Sum>e\<leftarrow>lru_ls c. item_size (lru_heap c e))"
    by (simp_all add: lru_inv_def)
  have d: "distinct (lru_ls c)" and b: "\<forall>e\<in>set (lru_ls c). e < lru_next c"
    using c by (simp_all add: lru_consistent_def)
  have "lru_consistent ?c'"
  proof (rule consistentI)
    show "distinct (lru_ls ?c')" using d by (simp add: distinct_MoveToBack)
    show "\<forall>e\<in>set (lru_ls ?c'). e < lru_next ?c'" using b by (simp add: set_MoveToBack)
    show "DAList.lookup (lru_table ?c') k' = Some e \<longleftrightarrow> e \<in> set (lru_ls ?c') \<and> item_key (lru_heap ?c' e) = k'" for k' e
      using lookup_iff [OF c, of k' e] by (simp add: set_MoveToBack)
  qed
  moreover have "lru_size ?c' = (\<Sum>e\<leftarrow>lru_ls ?c'. item_size (lru_heap ?c' e))"
    by (simp add: s sum_MoveToBack)
  ultimately show ?thesis by (simp add: lru_inv_def)
qed

lemma Get_inv: "lru_inv c \<Longrightarrow> lru_inv (snd (lru_Get c key))"
  using Get_state [of c key] by (auto simp: move_inv)

lemma Get_entries: "lru_entries (snd (lru_Get c key)) = lru_entries c"
  using Get_state [of c key] by (auto simp: lru_entries_def)

lemma Get_capacity: "lru_capacity (snd (lru_Get c key)) = lru_capacity c"
  using Get_state [of c key] by auto

subsection \<open>Runs of the LRU cache\<close>

lemmas lru_eval = lru_New_def lru_Put_def lru_Put_store_def lru_Get_def lru_List_def
  list_PushBack_def list_MoveToBack_def list_Front_def list_Remove_def
  evictLRU.simps Let_def DAList.lookup.rep_eq DAList.update.rep_eq DAList.delete.rep_eq
  DAList.empty.rep_eq

lemma lru_New_inv: "lru_inv (lru_New cap)"
  by (simp add: lru_inv_def lru_consistent_def lru_New_def DAList.empty.rep_eq)

lemma lru_New_facts: "lru_nonneg (lru_New cap)" "lru_bytes (lru_New cap) = 0" "lru_capacity (lru_New cap) = cap"
  by (simp_all add: lru_nonneg_def lru_bytes_def lru_entries_def lru_New_def DAList.empty.rep_eq)

lemma lru_Put_bound:
  assumes i: "lru_inv c" and n: "lru_nonneg c" and b: "lru_bytes c \<le> sint (lru_capacity c)"
    and cap: "0 \<le> sint (lru_capacity c)" and f: "lru_op_fits (lru_capacity c) (OpPut key v)"
  shows "\<exists>c'. lru_Put c key v = Inr c' \<and> lru_inv c' \<and> lru_nonneg c' \<and>
           lru_bytes c' \<le> sint (lru_capacity c') \<and> lru_capacity c' = lru_capacity c"
proof -
  from f obtain m where sz: "Size v = Inr m" and m0: "0 \<le> sint m"
    and fit: "sint (lru_capacity c) + sint m < 2 ^ 63"
    by (auto split: sum.splits)
  from i have c: "lru_consistent c" by (simp add: lru_inv_def)
  let ?s = "lru_Put_store c key v m"
  have si: "lru_inv ?s" using i by (rule store_inv)
  have sn: "lru_nonneg ?s" using c n m0 by (rule store_nonneg)
  have old: "0 \<le> sint (item_size (lru_heap c entry))"
    if "DAList.lookup (lru_table c) key = Some entry" for entry
    using n that by (simp add: lru_nonneg_ls [OF c] lookup_iff [OF c])
  have "lru_bytes ?s \<le> lru_bytes c + sint m"
    using old by (auto simp: store_bytes [OF c] split: option.splits)
  with b fit have sb: "lru_bytes ?s < 2 ^ 63" by simp
  have sc: "0 \<le> sint (lru_capacity ?s)" using cap by (simp add: store_capacity)
  have "lru_nonneg (evictLRU ?s) \<and> lru_bytes (evictLRU ?s) \<le> sint (lru_capacity ?s)"
    using si sn sb sc by (rule evictLRU_bound)
  moreover have "lru_inv (evictLRU ?s)" using si by (rule evictLRU_inv)
  ultimately show ?thesis
    by (simp add: lru_Put_def sz evictLRU_capacity store_capacity)
qed

lemma lru_Get_bound:
  assumes "lru_inv c" and "lru_nonneg c" and "lru_bytes c \<le> sint (lru_capacity c)"
  shows "lru_inv (snd (lru_Get c key)) \<and> lru_nonneg (snd (lru_Get c key)) \<and>
         lru_bytes (snd (lru_Get c key)) \<le> sint (lru_capacity (snd (lru_Get c key))) \<and>
         lru_capacity (snd (lru_Get c key)) = lru_capacity c"
  using assms by (simp add: Get_inv lru_nonneg_def lru_bytes_def Get_entries Get_capacity)

lemma lru_run_bound:
  assumes "lru_inv c" and "lru_nonneg c" and "lru_bytes c \<le> sint (lru_capacity c)"
    and "0 \<le> sint (lru_capacity c)" and "list_all (lru_op_fits (lru_capacity c)) ops"
  shows "\<exists>c'. lru_run c ops = Inr c' \<and> lru_inv c' \<and> lru_nonneg c' \<and>
           lru_bytes c' \<le> sint (lru_capacity c') \<and> lru_capacity c' = lru_capacity c"
  using assms
proof (induction ops arbitrary: c)
  case Nil
  then show ?case by simp
next
  case (Cons op ops)
  show ?case
  proof (cases op)
    case (OpPut key v)
    from Cons.prems obtain c1 where p: "lru_Put c key v = Inr c1" and i1: "lru_inv c1"
      and n1: "lru_nonneg c1" and b1: "lru_bytes c1 \<le> sint (lru_capacity c1)"
      and k1: "lru_capacity c1 = lru_capacity c"
      using lru_Put_bound [of c key v] by (auto simp: OpPut)
    have "\<exists>c'. lru_run c1 ops = Inr c' \<and> lru_inv c' \<and> lru_nonneg c' \<and>
           lru_bytes c' \<le> sint (lru_capacity c') \<and> lru_capacity c' = lru_capacity c1"
      using i1 n1 b1 Cons.prems(4,5) by (intro Cons.IH) (simp_all add: k1)
    then show ?thesis by (simp add: OpPut p k1)
  next
    case (OpGet key)
    let ?c1 = "snd (lru_Get c key)"
    note g = lru_Get_bound [OF Cons.prems(1,2,3), of key]
    have "\<exists>c'. lru_run ?c1 ops = Inr c' \<and> lru_inv c' \<and> lru_nonneg c' \<and>
           lru_bytes c' \<le> sint (lru_capacity c') \<and> lru_capacity c' = lru_capacity ?c1"
      using g Cons.prems(4,5) by (intro Cons.IH) auto
    then show ?thesis using g by (simp add: OpGet)
  qed
qed

text \<open>
  Recency order: the loop removes a prefix of the list, the oldest elements, and a
  \<^verbatim>\<open>Get\<close> that finds its key makes the element the newest.
\<close>

lemma evictLRU_drops_prefix: "\<exists>n. lru_ls (evictLRU c) = drop n (lru_ls c)"
proof (induction c rule: evictLRU.induct)
  case (1 c)
  show ?case
  proof (cases "sint (lru_capacity c) < sint (lru_size c)")
    case False
    then have "lru_ls (evictLRU c) = drop 0 (lru_ls c)" by (simp add: evictLRU.simps [of c])
    then show ?thesis ..
  next
    case True
    show ?thesis
    proof (cases "lru_ls c")
      case Nil
      then have "lru_ls (evictLRU c) = drop 0 (lru_ls c)"
        using True by (simp add: evictLRU.simps [of c] list_Front_def)
      then show ?thesis ..
    next
      case (Cons front rest)
      have fr: "list_Front (lru_ls c) = Some front" by (simp add: Cons list_Front_def)
      from "1.IH" [OF True fr refl] obtain n where
        "lru_ls (evictLRU (c\<lparr>lru_ls := list_Remove front (lru_ls c),
            lru_table := DAList.delete (item_key (lru_heap c front)) (lru_table c),
            lru_size := lru_size c - item_size (lru_heap c front)\<rparr>)) = drop n rest"
        by (auto simp: Cons list_Remove_def)
      then have "lru_ls (evictLRU c) = drop (Suc n) (lru_ls c)"
        using True fr by (simp add: evictLRU.simps [of c] Let_def Cons)
      then show ?thesis ..
    qed
  qed
qed

lemma lru_Get_touch:
  assumes "lru_consistent c" and "DAList.lookup (lru_table c) key = Some entry"
  shows "last (lru_ls (snd (lru_Get c key))) = entry"
proof -
  from assms have "entry \<in> set (lru_ls c)" by (simp add: lookup_iff)
  then show ?thesis using assms(2) by (simp add: lru_Get_def list_MoveToBack_def Let_def)
qed

lemma consistent_empty:
  assumes "lru_consistent c" and "lru_ls c = []"
  shows "lru_table c = DAList.empty"
  using assms by (simp add: lru_consistent_def DAList.alist_eq_iff DAList.empty.rep_eq)

lemma evictLRU_Nil: "lru_ls c = [] \<Longrightarrow> evictLRU c = c"
  by (simp add: evictLRU.simps [of c] list_Front_def)

text \<open>When the newest element alone exceeds the capacity, the loop empties the list.\<close>

lemma evictLRU_all:
  assumes "lru_inv c" and "lru_ls c = rest @ [e]"
    and "\<forall>x\<in>set rest. 0 \<le> sint (item_size (lru_heap c x))"
    and "sint (lru_capacity c) < sint (item_size (lru_heap c e))"
    and "lru_bytes c < 2 ^ 63"
  shows "lru_ls (evictLRU c) = []"
  using assms
proof (induction rest arbitrary: c)
  case Nil
  from Nil.prems(1) have c: "lru_consistent c" by (simp add: lru_inv_def)
  have bs: "lru_bytes c = sint (item_size (lru_heap c e))"
    by (simp add: lru_bytes_ls [OF c] Nil.prems(2))
  have "sint (lru_size c) = lru_bytes c"
    using Nil.prems(1) Nil.prems(5) sint64_range(1) [of "item_size (lru_heap c e)"]
    by (intro lru_size_exact) (simp_all add: bs)
  then have over: "sint (lru_capacity c) < sint (lru_size c)" using Nil.prems(4) by (simp add: bs)
  show ?case
    using over Nil.prems(2)
    by (simp add: evictLRU.simps [of c] list_Front_def list_Remove_def Let_def evictLRU_Nil)
next
  case (Cons x rest)
  from Cons.prems(1) have c: "lru_consistent c" by (simp add: lru_inv_def)
  have ls: "lru_ls c = x # (rest @ [e])" using Cons.prems(2) by simp
  have bs: "lru_bytes c = sint (item_size (lru_heap c x))
              + (\<Sum>y\<leftarrow>rest. sint (item_size (lru_heap c y))) + sint (item_size (lru_heap c e))"
    by (simp add: lru_bytes_ls [OF c] ls)
  have x0: "0 \<le> sint (item_size (lru_heap c x))" using Cons.prems(3) by simp
  have r0: "0 \<le> (\<Sum>y\<leftarrow>rest. sint (item_size (lru_heap c y)))"
    using Cons.prems(3) by (auto intro!: sum_list_nonneg)
  have ex: "sint (lru_size c) = lru_bytes c"
    using Cons.prems(1) Cons.prems(5) x0 r0 sint64_range(1) [of "item_size (lru_heap c e)"]
    by (intro lru_size_exact) (simp_all add: bs)
  have over: "sint (lru_capacity c) < sint (lru_size c)"
    using Cons.prems(4) x0 r0 by (simp add: ex bs)
  let ?c1 = "c\<lparr>lru_ls := rest @ [e],
               lru_table := DAList.delete (item_key (lru_heap c x)) (lru_table c),
               lru_size := lru_size c - item_size (lru_heap c x)\<rparr>"
  have i1: "lru_inv ?c1" using Cons.prems(1) ls by (rule evict_step_inv)
  have b1: "lru_bytes ?c1 < 2 ^ 63"
    using Cons.prems(5) x0 by (simp add: evict_step_bytes [OF c ls])
  have "lru_ls (evictLRU ?c1) = []"
    using i1 _ _ _ b1 by (rule Cons.IH) (use Cons.prems(3,4) in simp_all)
  then show ?case
    using over by (simp add: evictLRU.simps [of c] ls list_Front_def list_Remove_def Let_def)
qed

subsection \<open>The code against the reference order\<close>

text \<open>The store step and \<^verbatim>\<open>Get\<close> on the recency sequence.\<close>

lemma filter_unique_remove1:
  "distinct l \<Longrightarrow> \<forall>x\<in>set l. P x \<longleftrightarrow> x \<noteq> e \<Longrightarrow> filter P l = remove1 e l"
  by (induction l) (auto simp: remove1_idem)

lemma filter_unique_single:
  "distinct l \<Longrightarrow> e \<in> set l \<Longrightarrow> \<forall>x\<in>set l. P x \<longleftrightarrow> x = e \<Longrightarrow> filter P l = [e]"
proof (induction l)
  case Nil
  then show ?case by simp
next
  case (Cons a l)
  show ?case
  proof (cases "a = e")
    case True
    with Cons.prems have "\<forall>x\<in>set l. \<not> P x" by auto
    then have "filter P l = []" by (simp add: filter_empty_conv)
    with True Cons.prems show ?thesis by simp
  next
    case False
    with Cons show ?thesis by auto
  qed
qed

lemma filter_none: "\<forall>x\<in>set l. P x \<Longrightarrow> filter P l = l"
  by (induction l) auto

lemma lru_items_store:
  assumes c: "lru_consistent c"
  shows "lru_items (lru_Put_store c key v n) =
           filter (\<lambda>it. item_key it \<noteq> key) (lru_items c)
             @ [\<lparr>item_key = key, item_value = v, item_size = n\<rparr>]"
proof (cases "DAList.lookup (lru_table c) key")
  case None
  have nokey: "\<forall>e\<in>set (lru_ls c). item_key (lru_heap c e) \<noteq> key"
    using lookup_iff [OF c, of key] None by auto
  have "filter (\<lambda>it. item_key it \<noteq> key) (lru_items c) = lru_items c"
    unfolding lru_items_def using nokey by (intro filter_none) auto
  moreover have "lru_items (lru_Put_store c key v n)
      = lru_items c @ [\<lparr>item_key = key, item_value = v, item_size = n\<rparr>]"
    using store_insert_fields(6) [OF c None]
    by (simp add: lru_items_def store_insert_fields(1,3) [OF c None] cong: map_cong)
  ultimately show ?thesis by simp
next
  case (Some entry)
  have d: "distinct (lru_ls c)" using c by (simp add: lru_consistent_def)
  have k: "item_key (lru_heap c entry) = key" using c Some by (simp add: lookup_iff)
  have u: "item_key (lru_heap c e) = key \<longleftrightarrow> e = entry" if "e \<in> set (lru_ls c)" for e
    using lookup_iff [OF c, of key e] Some that by auto
  then have uniq: "\<forall>e\<in>set (lru_ls c). item_key (lru_heap c e) \<noteq> key \<longleftrightarrow> e \<noteq> entry"
    by simp
  have "filter (\<lambda>it. item_key it \<noteq> key) (lru_items c)
      = map (lru_heap c) (filter (\<lambda>e. item_key (lru_heap c e) \<noteq> key) (lru_ls c))"
    by (simp add: lru_items_def filter_map comp_def)
  also have "\<dots> = map (lru_heap c) (remove1 entry (lru_ls c))"
    by (simp only: filter_unique_remove1 [OF d uniq])
  finally have f: "filter (\<lambda>it. item_key it \<noteq> key) (lru_items c)
      = map (lru_heap c) (remove1 entry (lru_ls c))" .
  have "lru_items (lru_Put_store c key v n)
      = map (lru_heap c) (remove1 entry (lru_ls c))
          @ [\<lparr>item_key = key, item_value = v, item_size = n\<rparr>]"
    using store_update_fields(7) [OF c Some] k
    by (simp add: lru_items_def store_update_fields(1,3) [OF c Some] cong: map_cong)
  with f show ?thesis by simp
qed

lemma lru_items_Get:
  assumes c: "lru_consistent c"
  shows "lru_items (snd (lru_Get c key)) = spec_touch key (lru_items c)"
proof (cases "DAList.lookup (lru_table c) key")
  case None
  have nokey: "\<forall>e\<in>set (lru_ls c). item_key (lru_heap c e) \<noteq> key"
    using lookup_iff [OF c, of key] None by auto
  have "filter (\<lambda>it. item_key it \<noteq> key) (lru_items c) = lru_items c"
    unfolding lru_items_def using nokey by (intro filter_none) auto
  moreover have "filter (\<lambda>it. item_key it = key) (lru_items c) = []"
    unfolding lru_items_def using nokey by (auto simp: filter_empty_conv)
  ultimately show ?thesis by (simp add: spec_touch_def lru_Get_def None)
next
  case (Some entry)
  have d: "distinct (lru_ls c)" using c by (simp add: lru_consistent_def)
  have mem: "entry \<in> set (lru_ls c)" using c Some by (simp add: lookup_iff)
  have u: "item_key (lru_heap c e) = key \<longleftrightarrow> e = entry" if "e \<in> set (lru_ls c)" for e
    using lookup_iff [OF c, of key e] Some that by auto
  then have uniq: "\<forall>e\<in>set (lru_ls c). item_key (lru_heap c e) \<noteq> key \<longleftrightarrow> e \<noteq> entry"
    and uniq': "\<forall>e\<in>set (lru_ls c). item_key (lru_heap c e) = key \<longleftrightarrow> e = entry"
    by simp_all
  have "filter (\<lambda>it. item_key it \<noteq> key) (lru_items c)
      = map (lru_heap c) (filter (\<lambda>e. item_key (lru_heap c e) \<noteq> key) (lru_ls c))"
    by (simp add: lru_items_def filter_map comp_def)
  also have "\<dots> = map (lru_heap c) (remove1 entry (lru_ls c))"
    by (simp only: filter_unique_remove1 [OF d uniq])
  finally have f1: "filter (\<lambda>it. item_key it \<noteq> key) (lru_items c)
      = map (lru_heap c) (remove1 entry (lru_ls c))" .
  have "filter (\<lambda>it. item_key it = key) (lru_items c)
      = map (lru_heap c) (filter (\<lambda>e. item_key (lru_heap c e) = key) (lru_ls c))"
    by (simp add: lru_items_def filter_map comp_def)
  also have "\<dots> = map (lru_heap c) [entry]"
    by (simp only: filter_unique_single [OF d mem uniq'])
  finally have f2: "filter (\<lambda>it. item_key it = key) (lru_items c) = [lru_heap c entry]" by simp
  have "lru_items (snd (lru_Get c key)) = map (lru_heap c) (remove1 entry (lru_ls c)) @ [lru_heap c entry]"
    using mem by (simp add: lru_items_def lru_Get_def Some list_MoveToBack_def Let_def)
  then show ?thesis by (simp add: spec_touch_def f1 f2)
qed

lemma lru_List_set:
  assumes c: "lru_consistent c"
  shows "set (lru_List c) = (\<lambda>it. (item_key it, item_value it)) ` set (lru_items c)"
proof -
  have "set (lru_List c) = (\<lambda>(key, entry). (key, item_value (lru_heap c entry)))
          ` ((\<lambda>e. (item_key (lru_heap c e), e)) ` set (lru_ls c))"
    using c by (simp add: lru_List_def lru_consistent_def)
  also have "\<dots> = (\<lambda>it. (item_key it, item_value it)) ` set (lru_items c)"
    by (simp add: lru_items_def image_image)
  finally show ?thesis .
qed

text \<open>
  What the eviction loop does to list, store and running total, whatever the sizes; and
  that it is the reference eviction as long as the total has not wrapped.
\<close>

lemma evictLRU_effect:
  "\<exists>m. lru_ls (evictLRU c) = drop m (lru_ls c) \<and> lru_heap (evictLRU c) = lru_heap c \<and>
       lru_size (evictLRU c) = lru_size c - (\<Sum>e\<leftarrow>take m (lru_ls c). item_size (lru_heap c e))"
proof (induction c rule: evictLRU.induct)
  case (1 c)
  show ?case
  proof (cases "sint (lru_capacity c) < sint (lru_size c)")
    case False
    then have "evictLRU c = c" by (simp add: evictLRU.simps [of c])
    then have "lru_ls (evictLRU c) = drop 0 (lru_ls c) \<and> lru_heap (evictLRU c) = lru_heap c \<and>
       lru_size (evictLRU c) = lru_size c - (\<Sum>e\<leftarrow>take 0 (lru_ls c). item_size (lru_heap c e))"
      by simp
    then show ?thesis ..
  next
    case True
    show ?thesis
    proof (cases "lru_ls c")
      case Nil
      then have "evictLRU c = c" using True by (simp add: evictLRU.simps [of c] list_Front_def)
      then have "lru_ls (evictLRU c) = drop 0 (lru_ls c) \<and> lru_heap (evictLRU c) = lru_heap c \<and>
         lru_size (evictLRU c) = lru_size c - (\<Sum>e\<leftarrow>take 0 (lru_ls c). item_size (lru_heap c e))"
        by simp
      then show ?thesis ..
    next
      case (Cons front rest)
      have fr: "list_Front (lru_ls c) = Some front" by (simp add: Cons list_Front_def)
      let ?c1 = "c\<lparr>lru_ls := list_Remove front (lru_ls c),
            lru_table := DAList.delete (item_key (lru_heap c front)) (lru_table c),
            lru_size := lru_size c - item_size (lru_heap c front)\<rparr>"
      from "1.IH" [OF True fr refl] obtain m where
        m: "lru_ls (evictLRU ?c1) = drop m rest" "lru_heap (evictLRU ?c1) = lru_heap c"
           "lru_size (evictLRU ?c1) = lru_size c - item_size (lru_heap c front)
               - (\<Sum>e\<leftarrow>take m rest. item_size (lru_heap c e))"
        by (auto simp: Cons list_Remove_def)
      have e: "evictLRU c = evictLRU ?c1" using True fr by (simp add: evictLRU.simps [of c] Let_def)
      have "lru_ls (evictLRU c) = drop (Suc m) (lru_ls c) \<and> lru_heap (evictLRU c) = lru_heap c \<and>
         lru_size (evictLRU c) = lru_size c - (\<Sum>e\<leftarrow>take (Suc m) (lru_ls c). item_size (lru_heap c e))"
        by (simp only: e m) (simp add: Cons)
      then show ?thesis ..
    qed
  qed
qed

lemma evictLRU_heap: "lru_heap (evictLRU c) = lru_heap c"
  using evictLRU_effect [of c] by auto

lemma lru_items_evict_prefix: "\<exists>m. lru_items (evictLRU c) = drop m (lru_items c)"
  using evictLRU_effect [of c] by (auto simp: lru_items_def drop_map)

lemma lru_bytes_items:
  "lru_consistent c \<Longrightarrow> lru_bytes c = (\<Sum>it\<leftarrow>lru_items c. sint (item_size it))"
  by (simp add: lru_bytes_ls lru_items_def comp_def)

lemma lru_items_evict:
  assumes "lru_inv c" and "lru_nonneg c" and "lru_bytes c < 2 ^ 63"
  shows "lru_items (evictLRU c) = spec_evict (sint (lru_capacity c)) (lru_items c)"
  using assms
proof (induction c rule: evictLRU.induct)
  case (1 c)
  note i = \<open>lru_inv c\<close> and n = \<open>lru_nonneg c\<close> and hi = \<open>lru_bytes c < 2 ^ 63\<close>
  from i have c: "lru_consistent c" by (simp add: lru_inv_def)
  have lo: "0 \<le> lru_bytes c" using c n by (rule lru_bytes_nonneg)
  have ex: "sint (lru_size c) = lru_bytes c" using i lo hi by (intro lru_size_exact) simp_all
  show ?case
  proof (cases "lru_ls c")
    case Nil
    then show ?thesis by (simp add: evictLRU_Nil lru_items_def)
  next
    case (Cons front rest)
    have fr: "list_Front (lru_ls c) = Some front" by (simp add: Cons list_Front_def)
    have it: "lru_items c = lru_heap c front # map (lru_heap c) rest" by (simp add: lru_items_def Cons)
    have tot: "(\<Sum>it\<leftarrow>lru_heap c front # map (lru_heap c) rest. sint (item_size it)) = lru_bytes c"
      by (simp only: lru_bytes_items [OF c] it)
    show ?thesis
    proof (cases "sint (lru_capacity c) < sint (lru_size c)")
      case False
      then have "evictLRU c = c" by (simp add: evictLRU.simps [of c])
      moreover have "spec_evict (sint (lru_capacity c)) (lru_items c) = lru_items c"
        using False by (simp only: it spec_evict.simps tot ex) simp
      ultimately show ?thesis by simp
    next
      case True
      let ?c1 = "c\<lparr>lru_ls := list_Remove front (lru_ls c),
                   lru_table := DAList.delete (item_key (lru_heap c front)) (lru_table c),
                   lru_size := lru_size c - item_size (lru_heap c front)\<rparr>"
      have c1: "?c1 = c\<lparr>lru_ls := rest,
                   lru_table := DAList.delete (item_key (lru_heap c front)) (lru_table c),
                   lru_size := lru_size c - item_size (lru_heap c front)\<rparr>"
        by (simp add: Cons list_Remove_def)
      have fs: "0 \<le> sint (item_size (lru_heap c front))"
        using n by (simp add: lru_nonneg_ls [OF c] Cons)
      have i1: "lru_inv ?c1" unfolding c1 using i Cons by (rule evict_step_inv)
      have n1: "lru_nonneg ?c1" unfolding c1 using c Cons n by (rule evict_step_nonneg)
      have b1: "lru_bytes ?c1 < 2 ^ 63"
        unfolding c1 using hi fs by (simp add: evict_step_bytes [OF c Cons])
      have "lru_items (evictLRU ?c1) = spec_evict (sint (lru_capacity ?c1)) (lru_items ?c1)"
        using True fr refl i1 n1 b1 by (rule "1.IH")
      moreover have "lru_items ?c1 = map (lru_heap c) rest" by (simp add: lru_items_def Cons list_Remove_def)
      moreover have "evictLRU c = evictLRU ?c1" using True fr by (simp add: evictLRU.simps [of c] Let_def)
      moreover have "spec_evict (sint (lru_capacity c)) (lru_items c)
          = spec_evict (sint (lru_capacity c)) (map (lru_heap c) rest)"
        using True by (simp only: it spec_evict.simps tot ex) simp
      ultimately show ?thesis by simp
    qed
  qed
qed


text \<open>Runs of the cache against runs of the reference.\<close>

lemma lru_Put_refines:
  assumes i: "lru_inv c" and n: "lru_nonneg c" and b: "lru_bytes c \<le> sint (lru_capacity c)"
    and sz: "Size v = Inr m" and m0: "0 \<le> sint m"
    and fit: "sint (lru_capacity c) + sint m < 2 ^ 63"
  shows "lru_Put c key v = Inr (evictLRU (lru_Put_store c key v m)) \<and>
         lru_items (evictLRU (lru_Put_store c key v m))
           = spec_Put (sint (lru_capacity c)) key v m (lru_items c)"
proof -
  from i have c: "lru_consistent c" by (simp add: lru_inv_def)
  let ?s = "lru_Put_store c key v m"
  have si: "lru_inv ?s" using i by (rule store_inv)
  have sn: "lru_nonneg ?s" using c n m0 by (rule store_nonneg)
  have old: "0 \<le> sint (item_size (lru_heap c entry))"
    if "DAList.lookup (lru_table c) key = Some entry" for entry
    using n that by (simp add: lru_nonneg_ls [OF c] lookup_iff [OF c])
  have "lru_bytes ?s \<le> lru_bytes c + sint m"
    using old by (auto simp: store_bytes [OF c] split: option.splits)
  with b fit have sb: "lru_bytes ?s < 2 ^ 63" by simp
  show ?thesis
    by (simp add: lru_Put_def sz lru_items_evict [OF si sn sb] store_capacity
          lru_items_store [OF c] spec_Put_def)
qed

lemma lru_run_refines:
  assumes "lru_inv c" and "lru_nonneg c" and "lru_bytes c \<le> sint (lru_capacity c)"
    and "0 \<le> sint (lru_capacity c)" and "list_all (lru_op_fits (lru_capacity c)) ops"
  shows "\<exists>c'. lru_run c ops = Inr c' \<and> lru_consistent c' \<and>
           lru_items c' = spec_run (sint (lru_capacity c)) (lru_items c) ops"
  using assms
proof (induction ops arbitrary: c)
  case Nil
  then show ?case by (simp add: lru_inv_def)
next
  case (Cons op ops)
  show ?case
  proof (cases op)
    case (OpPut key v)
    from Cons.prems(5) obtain m where sz: "Size v = Inr m" and m0: "0 \<le> sint m"
      and fit: "sint (lru_capacity c) + sint m < 2 ^ 63"
      by (auto simp: OpPut split: sum.splits)
    from Cons.prems obtain c1 where p: "lru_Put c key v = Inr c1" and i1: "lru_inv c1"
      and n1: "lru_nonneg c1" and b1: "lru_bytes c1 \<le> sint (lru_capacity c1)"
      and k1: "lru_capacity c1 = lru_capacity c"
      using lru_Put_bound [of c key v] by (auto simp: OpPut)
    have it1: "lru_items c1 = spec_Put (sint (lru_capacity c)) key v m (lru_items c)"
      using lru_Put_refines [OF Cons.prems(1,2,3) sz m0 fit, of key] p by simp
    have "\<exists>c'. lru_run c1 ops = Inr c' \<and> lru_consistent c' \<and>
           lru_items c' = spec_run (sint (lru_capacity c1)) (lru_items c1) ops"
      using i1 n1 b1 Cons.prems(4,5) by (intro Cons.IH) (simp_all add: k1)
    then show ?thesis by (simp add: OpPut p k1 sz it1)
  next
    case (OpGet key)
    let ?c1 = "snd (lru_Get c key)"
    from Cons.prems(1) have c: "lru_consistent c" by (simp add: lru_inv_def)
    note g = lru_Get_bound [OF Cons.prems(1,2,3), of key]
    have "\<exists>c'. lru_run ?c1 ops = Inr c' \<and> lru_consistent c' \<and>
           lru_items c' = spec_run (sint (lru_capacity ?c1)) (lru_items ?c1) ops"
      using g Cons.prems(4,5) by (intro Cons.IH) auto
    then show ?thesis using g by (simp add: OpGet lru_items_Get [OF c])
  qed
qed

subsection \<open>The TTL cache\<close>

lemmas ttl_eval = ttl_New_def ttl_Put_def ttl_Get_def ttl_List_def ttl_expired_def Let_def
  DAList.lookup.rep_eq DAList.update.rep_eq DAList.delete.rep_eq DAList.empty.rep_eq

lemma ttl_List_loop_fst:
  "fst (ttl_List_loop now rest c acc) =
     acc @ map (\<lambda>(k, it). (k, titem_value it)) (filter (\<lambda>(k, it). \<not> ttl_expired now it) rest)"
  by (induction rest arbitrary: c acc) auto

lemma ttl_List_loop_snd:
  "DAList.impl_of (ttl_table (snd (ttl_List_loop now rest c acc))) =
     filter (\<lambda>p. fst p \<notin> fst ` {q \<in> set rest. ttl_expired now (snd q)})
       (DAList.impl_of (ttl_table c))"
proof (induction rest arbitrary: c acc)
  case Nil
  then show ?case by simp
next
  case (Cons x rest)
  obtain key it where x: "x = (key, it)" by (cases x)
  show ?case
  proof (cases "ttl_expired now it")
    case True
    have "{q \<in> set (x # rest). ttl_expired now (snd q)} = insert x {q \<in> set rest. ttl_expired now (snd q)}"
      using True by (auto simp: x)
    then show ?thesis
      using True
      by (simp add: x Cons.IH DAList.delete.rep_eq AList.delete_eq case_prod_unfold)
         (auto intro!: filter_cong)
  next
    case False
    have "{q \<in> set (x # rest). ttl_expired now (snd q)} = {q \<in> set rest. ttl_expired now (snd q)}"
      using False by (auto simp: x)
    then show ?thesis using False by (simp add: x Cons.IH)
  qed
qed

lemma distinct_fst_eq:
  "distinct (map fst al) \<Longrightarrow> p \<in> set al \<Longrightarrow> q \<in> set al \<Longrightarrow> fst p = fst q \<Longrightarrow> p = q"
  by (metis eq_key_imp_eq_value prod.collapse)

lemma ttl_List_result:
  "fst (ttl_List now c) =
     map (\<lambda>(k, it). (k, titem_value it))
       (filter (\<lambda>(k, it). \<not> ttl_expired now it) (DAList.impl_of (ttl_table c)))"
  by (simp add: ttl_List_def ttl_List_loop_fst)

lemma ttl_List_table:
  "DAList.impl_of (ttl_table (snd (ttl_List now c))) =
     filter (\<lambda>(k, it). \<not> ttl_expired now it) (DAList.impl_of (ttl_table c))"
proof -
  let ?al = "DAList.impl_of (ttl_table c)"
  have d: "distinct (map fst ?al)" by simp
  have "filter (\<lambda>p. fst p \<notin> fst ` {q \<in> set ?al. ttl_expired now (snd q)}) ?al
        = filter (\<lambda>(k, it). \<not> ttl_expired now it) ?al"
  proof (rule filter_cong [OF refl])
    fix p assume p: "p \<in> set ?al"
    have "fst p \<in> fst ` {q \<in> set ?al. ttl_expired now (snd q)} \<longleftrightarrow> ttl_expired now (snd p)"
    proof
      assume "fst p \<in> fst ` {q \<in> set ?al. ttl_expired now (snd q)}"
      then obtain q where q: "q \<in> set ?al" "ttl_expired now (snd q)" "fst p = fst q" by auto
      with d p have "p = q" by (intro distinct_fst_eq [of ?al])
      with q show "ttl_expired now (snd p)" by simp
    next
      assume "ttl_expired now (snd p)"
      with p show "fst p \<in> fst ` {q \<in> set ?al. ttl_expired now (snd q)}" by auto
    qed
    then show "(fst p \<notin> fst ` {q \<in> set ?al. ttl_expired now (snd q)})
                = (case p of (k, it) \<Rightarrow> \<not> ttl_expired now it)"
      by (simp add: case_prod_unfold)
  qed
  then show ?thesis by (simp add: ttl_List_def ttl_List_loop_snd)
qed

lemma ttl_List_lookup:
  "DAList.lookup (ttl_table (snd (ttl_List now c))) k =
     (case DAList.lookup (ttl_table c) k of
        None \<Rightarrow> None
      | Some it \<Rightarrow> if ttl_expired now it then None else Some it)"
proof -
  let ?al = "DAList.impl_of (ttl_table c)"
  let ?P = "\<lambda>(k, it). \<not> ttl_expired now it"
  have d: "distinct (map fst ?al)" by simp
  then have d': "distinct (map fst (filter ?P ?al))" by (rule distinct_map_filter)
  have iff: "map_of (filter ?P ?al) k = Some it \<longleftrightarrow> map_of ?al k = Some it \<and> \<not> ttl_expired now it" for it
    using d d' by simp
  have "map_of (filter ?P ?al) k =
     (case map_of ?al k of None \<Rightarrow> None | Some it \<Rightarrow> if ttl_expired now it then None else Some it)"
  proof (cases "map_of ?al k")
    case None
    then have "map_of (filter ?P ?al) k \<noteq> Some it" for it by (simp add: iff)
    then have "map_of (filter ?P ?al) k = None" by (cases "map_of (filter ?P ?al) k") auto
    then show ?thesis by (simp add: None)
  next
    case (Some it)
    show ?thesis
    proof (cases "ttl_expired now it")
      case True
      then have "map_of (filter ?P ?al) k \<noteq> Some it'" for it' using Some by (auto simp: iff)
      then have "map_of (filter ?P ?al) k = None" by (cases "map_of (filter ?P ?al) k") auto
      then show ?thesis by (simp add: Some True)
    next
      case False
      then have "map_of (filter ?P ?al) k = Some it" using Some by (simp add: iff)
      then show ?thesis by (simp add: Some False)
    qed
  qed
  then show ?thesis by (simp add: DAList.lookup.rep_eq ttl_List_table)
qed

lemma ttl_List_mem:
  "(k, v) \<in> set (fst (ttl_List now c)) \<longleftrightarrow>
     (\<exists>it. DAList.lookup (ttl_table c) k = Some it \<and> \<not> ttl_expired now it \<and> v = titem_value it)"
  by (auto simp: ttl_List_result DAList.lookup.rep_eq)

text \<open>An entry stored without expiry outlives every call that is not a \<^verbatim>\<open>Put\<close> on its key.\<close>

lemma ttl_forever_step:
  assumes q: "DAList.lookup (ttl_table c) key = Some \<lparr>titem_value = v, titem_expiry = 0\<rparr>"
    and x: "\<not> ttl_puts_key key x"
  shows "DAList.lookup (ttl_table (ttl_step c x)) key = Some \<lparr>titem_value = v, titem_expiry = 0\<rparr>"
proof -
  obtain now op where xe: "x = (now, op)" by (cases x)
  show ?thesis
  proof (cases op)
    case (TPut k' v' ttl')
    with x xe have "k' \<noteq> key" by simp
    then show ?thesis using q by (simp add: xe TPut ttl_Put_def)
  next
    case (TGet k')
    show ?thesis
    proof (cases "k' = key")
      case True
      then show ?thesis using q by (simp add: xe TGet ttl_Get_def ttl_expired_def)
    next
      case False
      then show ?thesis using q
        by (simp add: xe TGet ttl_Get_def split: option.splits)
    qed
  next
    case TList
    show ?thesis using q by (simp add: xe TList ttl_List_lookup ttl_expired_def)
  qed
qed

lemma ttl_forever_run:
  "DAList.lookup (ttl_table c) key = Some \<lparr>titem_value = v, titem_expiry = 0\<rparr> \<Longrightarrow>
   list_all (\<lambda>x. \<not> ttl_puts_key key x) ops \<Longrightarrow>
   DAList.lookup (ttl_table (ttl_run c ops)) key = Some \<lparr>titem_value = v, titem_expiry = 0\<rparr>"
  by (induction ops arbitrary: c) (simp_all add: ttl_forever_step)

section \<open>The claims\<close>

subsection \<open>C1: the capacity bound\<close>

text \<open>
  C1, as the code has it. For a cache made by \<open>lru_New\<close> with a positive capacity and
  every run of \<^verbatim>\<open>Put\<close> and \<^verbatim>\<open>Get\<close> calls whose values report non-negative sizes, each
  so small that capacity plus size still fits an int64, the run ends without a panic and
  the sizes of the entries present sum to at most the capacity. (Every prefix of a run is
  a run, so this holds after each \<^verbatim>\<open>Put\<close>.)
\<close>

theorem lru_capacity_bound:
  assumes "0 < sint cap" and "list_all (lru_op_fits cap) ops"
  shows "\<exists>c. lru_run (lru_New cap) ops = Inr c \<and> lru_bytes c \<le> sint cap"
  using lru_run_bound [of "lru_New cap" ops] assms
  by (auto simp: lru_New_inv lru_New_facts)

text \<open>
  An instance: capacity 16 and the calls of main.go up to \<^verbatim>\<open>Put("c")\<close>.
\<close>

theorem lru_capacity_bound_witness:
  "0 < sint (16 :: int64) \<and>
   list_all (lru_op_fits 16)
     [OpPut ''a'' (IntValue 10), OpPut ''b'' (IntValue 20), OpGet ''a'', OpPut ''c'' (IntValue 30)] \<and>
   lru_bytes (projr (lru_run (lru_New 16)
     [OpPut ''a'' (IntValue 10), OpPut ''b'' (IntValue 20), OpGet ''a'', OpPut ''c'' (IntValue 30)]))
     \<le> sint (16 :: int64)"
  using lru_capacity_bound [of 16
     "[OpPut ''a'' (IntValue 10), OpPut ''b'' (IntValue 20), OpGet ''a'', OpPut ''c'' (IntValue 30)]"]
  by auto

text \<open>
  C1 as stated, with no bound on the sizes, fails. Capacity 16, \<^verbatim>\<open>Put("a", IntValue(10))\<close>
  (size 8), then a \<^verbatim>\<open>Put("b", v)\<close> where \<open>v\<close> reports \<open>2^63 - 1\<close>: the running total
  \<open>8 + (2^63 - 1)\<close> wraps to a negative int64, the loop test \<^verbatim>\<open>c.size > c.capacity\<close> is
  false, nothing is evicted, and the two entries present sum to \<open>2^63 + 7\<close>.
\<close>

theorem lru_capacity_bound_counterexample:
  "0 < sint (16 :: int64) \<and>
   list_all lru_op_nonneg
     [OpPut ''a'' (IntValue 10), OpPut ''b'' (UserValue ''big'' 9223372036854775807)] \<and>
   \<not> isl (lru_run (lru_New 16)
     [OpPut ''a'' (IntValue 10), OpPut ''b'' (UserValue ''big'' 9223372036854775807)]) \<and>
   map fst (lru_List (projr (lru_run (lru_New 16)
     [OpPut ''a'' (IntValue 10), OpPut ''b'' (UserValue ''big'' 9223372036854775807)])))
     = [''a'', ''b''] \<and>
   lru_bytes (projr (lru_run (lru_New 16)
     [OpPut ''a'' (IntValue 10), OpPut ''b'' (UserValue ''big'' 9223372036854775807)]))
     = 9223372036854775815 \<and>
   \<not> lru_bytes (projr (lru_run (lru_New 16)
     [OpPut ''a'' (IntValue 10), OpPut ''b'' (UserValue ''big'' 9223372036854775807)]))
     \<le> sint (16 :: int64)"
  by (simp add: lru_eval lru_bytes_def lru_entries_def)

subsection \<open>C2: eviction in least-recently-touched order\<close>

text \<open>
  C2. Eviction is in least-recently-touched order, and \<^verbatim>\<open>Get\<close> counts as a touch.
  In general, on every consistent cache: a \<^verbatim>\<open>Get\<close> moves the entry of its key to the
  newest end of the recency sequence and leaves the rest in order, and a \<^verbatim>\<open>Put\<close> places
  its entry at the newest end and then removes entries from the oldest end only. For
  every run from \<open>lru_New\<close> with a positive capacity whose sizes are non-negative and
  cannot wrap the total (the bound of C1), the recency sequence and the listing are
  those of the reference of the specification: touch on \<^verbatim>\<open>Get\<close> and \<^verbatim>\<open>Put\<close>, evict the
  oldest while the total exceeds the capacity. And the scenario, for any four values of
  size 8 on capacity 16: after \<^verbatim>\<open>Put("a")\<close>, \<^verbatim>\<open>Put("b")\<close> the listing is \<open>{a, b}\<close>;
  \<^verbatim>\<open>Get("a")\<close> leaves it so and makes \<open>a\<close> the newest; \<^verbatim>\<open>Put("c")\<close> evicts exactly \<open>b\<close>
  and \<^verbatim>\<open>Put("d")\<close> exactly \<open>a\<close>; no call panics; without the \<^verbatim>\<open>Get\<close>, \<^verbatim>\<open>Put("c")\<close>
  evicts \<open>a\<close>.
\<close>

theorem lru_least_recently_touched:
  "(lru_consistent c \<longrightarrow>
      lru_items (snd (lru_Get c key)) = spec_touch key (lru_items c) \<and>
      (\<forall>n. Size v = Inr n \<longrightarrow>
         (\<exists>c' m. lru_Put c key v = Inr c' \<and>
            lru_items c' = drop m (filter (\<lambda>it. item_key it \<noteq> key) (lru_items c)
                                     @ [\<lparr>item_key = key, item_value = v, item_size = n\<rparr>])))) \<and>
   (0 < sint cap \<and> list_all (lru_op_fits cap) ops \<longrightarrow>
      (\<exists>c'. lru_run (lru_New cap) ops = Inr c' \<and>
            lru_items c' = spec_run (sint cap) [] ops \<and>
            set (lru_List c') = (\<lambda>it. (item_key it, item_value it)) ` set (spec_run (sint cap) [] ops))) \<and>
   (Size va = Inr 8 \<and> Size vb = Inr 8 \<and> Size vc = Inr 8 \<and> Size vd = Inr 8 \<longrightarrow>
      \<not> isl (lru_run (lru_New 16)
         [OpPut ''a'' va, OpPut ''b'' vb, OpGet ''a'', OpPut ''c'' vc, OpPut ''d'' vd]) \<and>
      set (lru_List (projr (lru_run (lru_New 16) [OpPut ''a'' va, OpPut ''b'' vb])))
        = {(''a'', va), (''b'', vb)} \<and>
      set (lru_List (projr (lru_run (lru_New 16) [OpPut ''a'' va, OpPut ''b'' vb, OpGet ''a''])))
        = {(''a'', va), (''b'', vb)} \<and>
      map item_key (lru_items (projr (lru_run (lru_New 16)
          [OpPut ''a'' va, OpPut ''b'' vb, OpGet ''a''])))
        = [''b'', ''a''] \<and>
      set (lru_List (projr (lru_run (lru_New 16)
          [OpPut ''a'' va, OpPut ''b'' vb, OpGet ''a'', OpPut ''c'' vc])))
        = {(''a'', va), (''c'', vc)} \<and>
      set (lru_List (projr (lru_run (lru_New 16)
          [OpPut ''a'' va, OpPut ''b'' vb, OpGet ''a'', OpPut ''c'' vc, OpPut ''d'' vd])))
        = {(''c'', vc), (''d'', vd)} \<and>
      set (lru_List (projr (lru_run (lru_New 16) [OpPut ''a'' va, OpPut ''b'' vb, OpPut ''c'' vc])))
        = {(''b'', vb), (''c'', vc)})"
proof (intro conjI impI allI)
  assume c: "lru_consistent c"
  show "lru_items (snd (lru_Get c key)) = spec_touch key (lru_items c)"
    using c by (rule lru_items_Get)
  fix n assume sz: "Size v = Inr n"
  from lru_items_evict_prefix [of "lru_Put_store c key v n"] obtain m where
    "lru_items (evictLRU (lru_Put_store c key v n)) = drop m (lru_items (lru_Put_store c key v n))"
    by blast
  then show "\<exists>c' m. lru_Put c key v = Inr c' \<and>
            lru_items c' = drop m (filter (\<lambda>it. item_key it \<noteq> key) (lru_items c)
                                     @ [\<lparr>item_key = key, item_value = v, item_size = n\<rparr>])"
    by (auto simp: lru_Put_def sz lru_items_store [OF c])
next
  assume h: "0 < sint cap \<and> list_all (lru_op_fits cap) ops"
  have e: "lru_items (lru_New cap) = []" by (simp add: lru_items_def lru_New_def)
  from lru_run_refines [of "lru_New cap" ops] h obtain c' where
    r: "lru_run (lru_New cap) ops = Inr c'" and cc: "lru_consistent c'"
    and it: "lru_items c' = spec_run (sint cap) [] ops"
    by (auto simp: lru_New_inv lru_New_facts e)
  show "\<exists>c'. lru_run (lru_New cap) ops = Inr c' \<and>
            lru_items c' = spec_run (sint cap) [] ops \<and>
            set (lru_List c') = (\<lambda>it. (item_key it, item_value it)) ` set (spec_run (sint cap) [] ops)"
    using r it lru_List_set [OF cc] by simp
qed (simp_all add: lru_eval lru_items_def insert_commute)

text \<open>
  Instances: on capacity 24 the calls \<^verbatim>\<open>Put\<close> of \<open>a\<close>, \<open>b\<close>, \<open>c\<close>, \<^verbatim>\<open>Get("b")\<close>,
  \<^verbatim>\<open>Put\<close> of \<open>d\<close>, \<open>e\<close> leave \<open>b\<close>, \<open>d\<close>, \<open>e\<close>: the \<^verbatim>\<open>Get\<close> moved an entry from the
  middle of the sequence, so \<open>a\<close> and \<open>c\<close> go first; and the scenario with the values
  of main.go.
\<close>

theorem lru_least_recently_touched_witness:
  "0 < sint (24 :: int64) \<and>
   list_all (lru_op_fits 24)
     [OpPut ''a'' (IntValue 1), OpPut ''b'' (IntValue 2), OpPut ''c'' (IntValue 3), OpGet ''b'',
      OpPut ''d'' (IntValue 4), OpPut ''e'' (IntValue 5)] \<and>
   map item_key (lru_items (projr (lru_run (lru_New 24)
     [OpPut ''a'' (IntValue 1), OpPut ''b'' (IntValue 2), OpPut ''c'' (IntValue 3), OpGet ''b'',
      OpPut ''d'' (IntValue 4), OpPut ''e'' (IntValue 5)]))) = [''b'', ''d'', ''e''] \<and>
   set (lru_List (projr (lru_run (lru_New 24)
     [OpPut ''a'' (IntValue 1), OpPut ''b'' (IntValue 2), OpPut ''c'' (IntValue 3), OpGet ''b'',
      OpPut ''d'' (IntValue 4), OpPut ''e'' (IntValue 5)])))
     = {(''b'', IntValue 2), (''d'', IntValue 4), (''e'', IntValue 5)} \<and>
   lru_consistent (projr (lru_run (lru_New 24)
     [OpPut ''a'' (IntValue 1), OpPut ''b'' (IntValue 2), OpPut ''c'' (IntValue 3)])) \<and>
   map item_key (lru_items (snd (lru_Get (projr (lru_run (lru_New 24)
     [OpPut ''a'' (IntValue 1), OpPut ''b'' (IntValue 2), OpPut ''c'' (IntValue 3)])) ''b'')))
     = [''a'', ''c'', ''b''] \<and>
   Size (IntValue 10) = Inr 8 \<and> Size (IntValue 20) = Inr 8 \<and>
   Size (IntValue 30) = Inr 8 \<and> Size (IntValue 40) = Inr 8 \<and>
   set (lru_List (projr (lru_run (lru_New 16)
     [OpPut ''a'' (IntValue 10), OpPut ''b'' (IntValue 20), OpGet ''a'', OpPut ''c'' (IntValue 30)])))
     = {(''a'', IntValue 10), (''c'', IntValue 30)} \<and>
   set (lru_List (projr (lru_run (lru_New 16)
     [OpPut ''a'' (IntValue 10), OpPut ''b'' (IntValue 20), OpGet ''a'', OpPut ''c'' (IntValue 30),
      OpPut ''d'' (IntValue 40)])))
     = {(''c'', IntValue 30), (''d'', IntValue 40)}"
proof -
  let ?ops = "[OpPut ''a'' (IntValue 1), OpPut ''b'' (IntValue 2), OpPut ''c'' (IntValue 3),
      OpGet ''b'', OpPut ''d'' (IntValue 4), OpPut ''e'' (IntValue 5)]"
  let ?c3 = "projr (lru_run (lru_New 24)
     [OpPut ''a'' (IntValue 1), OpPut ''b'' (IntValue 2), OpPut ''c'' (IntValue 3)])"
  note T = lru_least_recently_touched [where cap = 24 and ops = ?ops and c = ?c3 and key = "''b''"
      and va = "IntValue 10" and vb = "IntValue 20" and vc = "IntValue 30" and vd = "IntValue 40"]
  have h: "0 < sint (24 :: int64)" "list_all (lru_op_fits 24) ?ops" by simp_all
  have sp: "spec_run (sint (24 :: int64)) [] ?ops
      = [\<lparr>item_key = ''b'', item_value = IntValue 2, item_size = 8\<rparr>,
         \<lparr>item_key = ''d'', item_value = IntValue 4, item_size = 8\<rparr>,
         \<lparr>item_key = ''e'', item_value = IntValue 5, item_size = 8\<rparr>]"
    by (simp add: spec_Put_def spec_touch_def)
  note A = T [THEN conjunct1, rule_format]
  note B = T [THEN conjunct2, THEN conjunct1, rule_format, OF conjI]
  note C = T [THEN conjunct2, THEN conjunct2, rule_format]
  from B [OF h] obtain c' where r: "lru_run (lru_New 24) ?ops = Inr c'"
    and it: "lru_items c' = spec_run (sint (24 :: int64)) [] ?ops"
    and li: "set (lru_List c') = (\<lambda>it. (item_key it, item_value it)) ` set (spec_run (sint (24 :: int64)) [] ?ops)"
    by (elim exE conjE)
  have p: "projr (lru_run (lru_New 24) ?ops) = c'" by (simp only: r sum.sel)
  have b1: "map item_key (lru_items (projr (lru_run (lru_New 24) ?ops))) = [''b'', ''d'', ''e'']"
    by (simp only: p it sp) simp
  have b2: "set (lru_List (projr (lru_run (lru_New 24) ?ops)))
     = {(''b'', IntValue 2), (''d'', IntValue 4), (''e'', IntValue 5)}"
    by (simp only: p li sp) simp
  have c3: "lru_consistent ?c3" by (simp add: lru_eval lru_consistent_def)
  have i3: "lru_items ?c3
      = [\<lparr>item_key = ''a'', item_value = IntValue 1, item_size = 8\<rparr>,
         \<lparr>item_key = ''b'', item_value = IntValue 2, item_size = 8\<rparr>,
         \<lparr>item_key = ''c'', item_value = IntValue 3, item_size = 8\<rparr>]"
    by (simp add: lru_eval lru_items_def)
  from A [OF c3] have "lru_items (snd (lru_Get ?c3 ''b'')) = spec_touch ''b'' (lru_items ?c3)"
    by (rule conjunct1)
  then have a1: "map item_key (lru_items (snd (lru_Get ?c3 ''b''))) = [''a'', ''c'', ''b'']"
    by (simp only: i3) (simp add: spec_touch_def)
  have s: "Size (IntValue 10) = Inr 8" "Size (IntValue 20) = Inr 8"
    "Size (IntValue 30) = Inr 8" "Size (IntValue 40) = Inr 8" by simp_all
  have s4: "Size (IntValue 10) = Inr 8 \<and> Size (IntValue 20) = Inr 8 \<and>
    Size (IntValue 30) = Inr 8 \<and> Size (IntValue 40) = Inr 8" by simp
  note C' = C [OF s4]
  have sc1: "set (lru_List (projr (lru_run (lru_New 16)
     [OpPut ''a'' (IntValue 10), OpPut ''b'' (IntValue 20), OpGet ''a'', OpPut ''c'' (IntValue 30)])))
     = {(''a'', IntValue 10), (''c'', IntValue 30)}"
    by (rule C' [THEN conjunct2, THEN conjunct2, THEN conjunct2, THEN conjunct2, THEN conjunct1])
  have sc2: "set (lru_List (projr (lru_run (lru_New 16)
     [OpPut ''a'' (IntValue 10), OpPut ''b'' (IntValue 20), OpGet ''a'', OpPut ''c'' (IntValue 30),
      OpPut ''d'' (IntValue 40)])))
     = {(''c'', IntValue 30), (''d'', IntValue 40)}"
    by (rule C' [THEN conjunct2, THEN conjunct2, THEN conjunct2, THEN conjunct2, THEN conjunct2,
          THEN conjunct1])
  show ?thesis by (intro conjI h b1 b2 c3 a1 s sc1 sc2)
qed

subsection \<open>C3: when an entry with an expiry is present\<close>

text \<open>
  C3, as the code has it. An entry whose expiry is set (positive) is present exactly
  while the clock is at or before the expiry: \<^verbatim>\<open>Get\<close> returns its value with found = true
  and leaves the cache alone, and \<^verbatim>\<open>List\<close> includes and keeps it, if and only if
  \<open>now \<le> expiry\<close>; \<^verbatim>\<open>Get\<close> reports (nil, false) if and only if \<open>expiry < now\<close>.
\<close>

theorem ttl_present_iff:
  assumes "DAList.lookup (ttl_table c) key = Some it" and "0 < sint (titem_expiry it)"
  shows "(ttl_Get now c key = ((titem_value it, True), c) \<longleftrightarrow> sint now \<le> sint (titem_expiry it)) \<and>
         (fst (ttl_Get now c key) = (nil, False) \<longleftrightarrow> sint (titem_expiry it) < sint now) \<and>
         (key \<in> fst ` set (fst (ttl_List now c)) \<longleftrightarrow> sint now \<le> sint (titem_expiry it)) \<and>
         (DAList.lookup (ttl_table (snd (ttl_List now c))) key = Some it
            \<longleftrightarrow> sint now \<le> sint (titem_expiry it))"
proof -
  have "key \<in> fst ` set (fst (ttl_List now c)) \<longleftrightarrow> (\<exists>v. (key, v) \<in> set (fst (ttl_List now c)))"
    by force
  then show ?thesis
    using assms by (auto simp: ttl_Get_def ttl_List_mem ttl_List_lookup ttl_expired_def)
qed

text \<open>
  An instance: stored at time 100 with a ttl of 5, the entry is found at 105 and gone at
  106.
\<close>

theorem ttl_present_iff_witness:
  "DAList.lookup (ttl_table (ttl_Put 100 ttl_New ''k'' (IntValue 1) 5)) ''k''
     = Some \<lparr>titem_value = IntValue 1, titem_expiry = 105\<rparr> \<and>
   0 < sint (105 :: int64) \<and>
   ttl_Get 105 (ttl_Put 100 ttl_New ''k'' (IntValue 1) 5) ''k''
     = ((IntValue 1, True), ttl_Put 100 ttl_New ''k'' (IntValue 1) 5) \<and>
   fst (ttl_Get 106 (ttl_Put 100 ttl_New ''k'' (IntValue 1) 5) ''k'') = (nil, False) \<and>
   ''k'' \<in> fst ` set (fst (ttl_List 105 (ttl_Put 100 ttl_New ''k'' (IntValue 1) 5))) \<and>
   ''k'' \<notin> fst ` set (fst (ttl_List 106 (ttl_Put 100 ttl_New ''k'' (IntValue 1) 5)))"
proof -
  let ?c = "ttl_Put 100 ttl_New ''k'' (IntValue 1) 5"
  let ?it = "\<lparr>titem_value = IntValue 1, titem_expiry = 105\<rparr>"
  have h: "DAList.lookup (ttl_table ?c) ''k'' = Some ?it" "0 < sint (titem_expiry ?it)"
    by (simp_all add: ttl_New_def ttl_Put_def)
  from ttl_present_iff [OF h, of 105] ttl_present_iff [OF h, of 106] h show ?thesis by simp
qed

text \<open>
  C3 as stated puts the boundary one tick earlier: at a time equal to the expiry the
  entry should be absent. The code tests \<^verbatim>\<open>now > it.expiry\<close>, so at time 105 the entry
  with expiry 105 is still found by \<^verbatim>\<open>Get\<close> and listed by \<^verbatim>\<open>List\<close>, although 105 is not
  strictly before 105.
\<close>

theorem ttl_present_counterexample:
  "DAList.lookup (ttl_table (ttl_Put 100 ttl_New ''k'' (IntValue 1) 5)) ''k''
     = Some \<lparr>titem_value = IntValue 1, titem_expiry = 105\<rparr> \<and>
   \<not> sint (105 :: int64) < sint (105 :: int64) \<and>
   fst (ttl_Get 105 (ttl_Put 100 ttl_New ''k'' (IntValue 1) 5) ''k'') = (IntValue 1, True) \<and>
   fst (ttl_List 105 (ttl_Put 100 ttl_New ''k'' (IntValue 1) 5)) = [(''k'', IntValue 1)]"
  by (simp add: ttl_eval)

subsection \<open>C4: a value larger than the capacity\<close>

text \<open>
  C4, as the code has it. On a consistent cache whose entries have non-negative sizes,
  a \<^verbatim>\<open>Put\<close> of a value whose size exceeds the capacity, where the sizes present plus
  that size still fit an int64, does not panic and leaves the cache empty: list and
  table are empty and \<^verbatim>\<open>List\<close> returns nothing.
\<close>

theorem lru_Put_oversized:
  assumes i: "lru_inv c" and nn: "lru_nonneg c" and sz: "Size v = Inr n"
    and big: "sint (lru_capacity c) < sint n" and fit: "lru_bytes c + sint n < 2 ^ 63"
  shows "\<exists>c'. lru_Put c key v = Inr c' \<and> lru_ls c' = [] \<and> lru_table c' = DAList.empty \<and>
           lru_List c' = []"
proof -
  from i have c: "lru_consistent c" by (simp add: lru_inv_def)
  let ?s = "lru_Put_store c key v n"
  have si: "lru_inv ?s" using i by (rule store_inv)
  have old: "\<forall>e\<in>set (lru_ls c). 0 \<le> sint (item_size (lru_heap c e))"
    using nn by (simp add: lru_nonneg_ls [OF c])
  have "\<exists>rest e. lru_ls ?s = rest @ [e] \<and> (\<forall>x\<in>set rest. 0 \<le> sint (item_size (lru_heap ?s x)))
          \<and> item_size (lru_heap ?s e) = n \<and> lru_bytes ?s \<le> lru_bytes c + sint n"
  proof (cases "DAList.lookup (lru_table c) key")
    case None
    show ?thesis
      using old store_insert_fields(6) [OF c None]
      by (auto simp: store_insert_fields(1,3) [OF c None] store_bytes [OF c] None)
  next
    case (Some entry)
    have "set (remove1 entry (lru_ls c)) \<subseteq> set (lru_ls c)" by (rule set_remove1_subset)
    moreover have "0 \<le> sint (item_size (lru_heap c entry))"
      using old store_update_fields(6) [OF c Some] by simp
    ultimately show ?thesis
      using old store_update_fields(7) [OF c Some]
      by (auto simp: store_update_fields(1,3) [OF c Some] store_bytes [OF c] Some)
  qed
  then obtain rest e where ls: "lru_ls ?s = rest @ [e]"
    and r0: "\<forall>x\<in>set rest. 0 \<le> sint (item_size (lru_heap ?s x))"
    and en: "item_size (lru_heap ?s e) = n" and sb: "lru_bytes ?s \<le> lru_bytes c + sint n"
    by blast
  have "lru_ls (evictLRU ?s) = []"
    using si ls r0 _ _ by (rule evictLRU_all) (use big fit sb in \<open>simp_all add: en store_capacity\<close>)
  moreover have "lru_consistent (evictLRU ?s)" using evictLRU_inv [OF si] by (simp add: lru_inv_def)
  ultimately have "lru_ls (evictLRU ?s) = [] \<and> lru_table (evictLRU ?s) = DAList.empty"
    by (simp add: consistent_empty)
  then show ?thesis by (simp add: lru_Put_def sz lru_List_def DAList.empty.rep_eq)
qed

text \<open>
  An instance: capacity 16, one entry of size 8, then a value of size 17.
\<close>

theorem lru_Put_oversized_witness:
  "lru_inv (projr (lru_Put (lru_New 16) ''a'' (IntValue 10))) \<and>
   lru_nonneg (projr (lru_Put (lru_New 16) ''a'' (IntValue 10))) \<and>
   Size (UserValue ''big'' 17) = Inr 17 \<and>
   sint (lru_capacity (projr (lru_Put (lru_New 16) ''a'' (IntValue 10)))) < sint (17 :: int64) \<and>
   lru_bytes (projr (lru_Put (lru_New 16) ''a'' (IntValue 10))) + sint (17 :: int64) < 2 ^ 63 \<and>
   lru_List (projr (lru_Put (projr (lru_Put (lru_New 16) ''a'' (IntValue 10))) ''b''
      (UserValue ''big'' 17))) = []"
proof -
  let ?c1 = "projr (lru_Put (lru_New 16) ''a'' (IntValue 10))"
  have h: "lru_inv ?c1" "lru_nonneg ?c1" "Size (UserValue ''big'' 17) = Inr 17"
    "sint (lru_capacity ?c1) < sint (17 :: int64)" "lru_bytes ?c1 + sint (17 :: int64) < 2 ^ 63"
    by (simp_all add: lru_eval lru_inv_def lru_consistent_def lru_nonneg_def lru_bytes_def
          lru_entries_def)
  from lru_Put_oversized [OF h, of "''b''"] h show ?thesis by auto
qed

text \<open>
  C4 as stated, for any size above the capacity, fails: capacity 16, one entry of size
  8 (running total exact), then a value reporting \<open>2^63 - 1\<close>. The total wraps to a
  negative int64, the eviction loop does not run, and both entries stay.
\<close>

theorem lru_Put_oversized_counterexample:
  "lru_inv_exact (projr (lru_Put (lru_New 16) ''a'' (IntValue 10))) \<and>
   lru_nonneg (projr (lru_Put (lru_New 16) ''a'' (IntValue 10))) \<and>
   Size (UserValue ''big'' 9223372036854775807) = Inr 9223372036854775807 \<and>
   sint (lru_capacity (projr (lru_Put (lru_New 16) ''a'' (IntValue 10))))
     < sint (9223372036854775807 :: int64) \<and>
   \<not> isl (lru_Put (projr (lru_Put (lru_New 16) ''a'' (IntValue 10))) ''b''
      (UserValue ''big'' 9223372036854775807)) \<and>
   lru_List (projr (lru_Put (projr (lru_Put (lru_New 16) ''a'' (IntValue 10))) ''b''
      (UserValue ''big'' 9223372036854775807)))
     = [(''a'', IntValue 10), (''b'', UserValue ''big'' 9223372036854775807)]"
  by (simp add: lru_eval lru_inv_exact_def lru_consistent_def lru_nonneg_def lru_bytes_def
        lru_entries_def)

subsection \<open>C5: \<^verbatim>\<open>Put\<close> on a key already present\<close>



subsection \<open>C6: a ttl of zero or less never expires\<close>

text \<open>
  C6. After a \<^verbatim>\<open>Put\<close> of \<open>key\<close> with \<open>ttl \<le> 0\<close> and any later calls, at any clock
  readings, none of which is a \<^verbatim>\<open>Put\<close> on \<open>key\<close>: at every time \<open>t\<close>, \<^verbatim>\<open>Get\<close> returns
  the stored value with found = true and leaves the cache unchanged, and \<^verbatim>\<open>List\<close>
  includes the entry and keeps it in the table.
\<close>

theorem ttl_never_expires:
  assumes "sint ttl \<le> 0" and "list_all (\<lambda>x. \<not> ttl_puts_key key x) ops"
  shows "ttl_Get t (ttl_run (ttl_Put now c key v ttl) ops) key
           = ((v, True), ttl_run (ttl_Put now c key v ttl) ops) \<and>
         (key, v) \<in> set (fst (ttl_List t (ttl_run (ttl_Put now c key v ttl) ops))) \<and>
         DAList.lookup (ttl_table (snd (ttl_List t (ttl_run (ttl_Put now c key v ttl) ops)))) key
           = Some \<lparr>titem_value = v, titem_expiry = 0\<rparr>"
proof -
  have "DAList.lookup (ttl_table (ttl_Put now c key v ttl)) key
          = Some \<lparr>titem_value = v, titem_expiry = 0\<rparr>"
    using assms(1) by (simp add: ttl_Put_def)
  then have "DAList.lookup (ttl_table (ttl_run (ttl_Put now c key v ttl) ops)) key
          = Some \<lparr>titem_value = v, titem_expiry = 0\<rparr>"
    using assms(2) by (rule ttl_forever_run)
  then show ?thesis
    by (simp add: ttl_Get_def ttl_List_mem ttl_List_lookup ttl_expired_def)
qed

text \<open>
  An instance: stored at time 100 with ttl 0, read at the last instant an int64 can
  hold, after calls on another key and a listing.
\<close>

theorem ttl_never_expires_witness:
  "sint (0 :: int64) \<le> 0 \<and>
   list_all (\<lambda>x. \<not> ttl_puts_key ''k'' x)
     [(200, TPut ''j'' (IntValue 2) 5), (300, TGet ''j''), (400, TList), (500, TGet ''k'')] \<and>
   fst (ttl_Get 9223372036854775807 (ttl_run (ttl_Put 100 ttl_New ''k'' (IntValue 1) 0)
     [(200, TPut ''j'' (IntValue 2) 5), (300, TGet ''j''), (400, TList), (500, TGet ''k'')]) ''k'')
     = (IntValue 1, True) \<and>
   (''k'', IntValue 1) \<in> set (fst (ttl_List 9223372036854775807
     (ttl_run (ttl_Put 100 ttl_New ''k'' (IntValue 1) 0)
     [(200, TPut ''j'' (IntValue 2) 5), (300, TGet ''j''), (400, TList), (500, TGet ''k'')])))"
  using ttl_never_expires [of 0 "''k''"
     "[(200, TPut ''j'' (IntValue 2) 5), (300, TGet ''j''), (400, TList), (500, TGet ''k'')]"
     9223372036854775807 100 ttl_New "IntValue 1"]
  by simp

subsection \<open>C7: \<^verbatim>\<open>Put\<close> replaces the entry wholesale\<close>

text \<open>
  C7. After a \<^verbatim>\<open>Put\<close> the entry under the key holds the value of this call and the
  expiry \<open>now + ttl\<close> (int64 addition) for a positive ttl, the never-expires mark 0
  otherwise; and a \<^verbatim>\<open>Put\<close> after an earlier \<^verbatim>\<open>Put\<close> on the same key gives the very
  cache the later call alone gives: nothing of the earlier value or ttl remains.
\<close>

theorem ttl_Put_overwrites:
  "DAList.lookup (ttl_table (ttl_Put now c key v ttl)) key
     = Some \<lparr>titem_value = v, titem_expiry = (if 0 < sint ttl then now + ttl else 0)\<rparr> \<and>
   ttl_Put now (ttl_Put now0 c key v0 ttl0) key v ttl = ttl_Put now c key v ttl"
  by (simp add: ttl_Put_def)

subsection \<open>C8: the read that sees an expired entry removes it\<close>

text \<open>
  C8. A \<^verbatim>\<open>Get\<close> on a present key whose expiry has passed deletes the key from the
  table and reports (nil, false). A \<^verbatim>\<open>List\<close> returns exactly the entries that have not
  expired, and leaves exactly those in the table.
\<close>

theorem ttl_expired_removed:
  "(DAList.lookup (ttl_table c) key = Some it \<and> ttl_expired now it \<longrightarrow>
      ttl_Get now c key = ((nil, False), c\<lparr>ttl_table := DAList.delete key (ttl_table c)\<rparr>) \<and>
      DAList.lookup (ttl_table (snd (ttl_Get now c key))) key = None) \<and>
   fst (ttl_List now c) =
     map (\<lambda>(k, it). (k, titem_value it))
       (filter (\<lambda>(k, it). \<not> ttl_expired now it) (DAList.impl_of (ttl_table c))) \<and>
   DAList.impl_of (ttl_table (snd (ttl_List now c))) =
     filter (\<lambda>(k, it). \<not> ttl_expired now it) (DAList.impl_of (ttl_table c))"
  by (simp add: ttl_Get_def ttl_List_result ttl_List_table)

text \<open>
  An instance, the TTL run of main.go: \<open>k1\<close> with 5 and \<open>k2\<close> with 10 ticks to live,
  read one tick after \<open>k1\<close> has expired.
\<close>

theorem ttl_expired_removed_witness:
  "DAList.lookup (ttl_table (ttl_Put 100 (ttl_Put 100 ttl_New ''k1'' (IntValue 111) 5)
      ''k2'' (IntValue 222) 10)) ''k1''
     = Some \<lparr>titem_value = IntValue 111, titem_expiry = 105\<rparr> \<and>
   ttl_expired 106 \<lparr>titem_value = IntValue 111, titem_expiry = 105\<rparr> \<and>
   fst (ttl_Get 106 (ttl_Put 100 (ttl_Put 100 ttl_New ''k1'' (IntValue 111) 5)
      ''k2'' (IntValue 222) 10) ''k1'') = (nil, False) \<and>
   DAList.lookup (ttl_table (snd (ttl_Get 106 (ttl_Put 100 (ttl_Put 100 ttl_New ''k1'' (IntValue 111) 5)
      ''k2'' (IntValue 222) 10) ''k1''))) ''k1'' = None \<and>
   fst (ttl_List 106 (ttl_Put 100 (ttl_Put 100 ttl_New ''k1'' (IntValue 111) 5)
      ''k2'' (IntValue 222) 10)) = [(''k2'', IntValue 222)] \<and>
   DAList.impl_of (ttl_table (snd (ttl_List 106 (ttl_Put 100 (ttl_Put 100 ttl_New ''k1'' (IntValue 111) 5)
      ''k2'' (IntValue 222) 10))))
     = [(''k2'', \<lparr>titem_value = IntValue 222, titem_expiry = 110\<rparr>)]"
proof -
  let ?c = "ttl_Put 100 (ttl_Put 100 ttl_New ''k1'' (IntValue 111) 5) ''k2'' (IntValue 222) 10"
  let ?it = "\<lparr>titem_value = IntValue 111, titem_expiry = 105\<rparr>"
  have h: "DAList.lookup (ttl_table ?c) ''k1'' = Some ?it" "ttl_expired 106 ?it"
    by (simp_all add: ttl_eval)
  have al: "DAList.impl_of (ttl_table ?c)
    = [(''k1'', ?it), (''k2'', \<lparr>titem_value = IntValue 222, titem_expiry = 110\<rparr>)]"
    by (simp add: ttl_eval)
  from ttl_expired_removed [of ?c "''k1''" ?it 106] h show ?thesis
    by (simp add: al ttl_expired_def)
qed

subsection \<open>C9: table, list and running total stay consistent\<close>

text \<open>
  C9, as the code has it. \<open>lru_New\<close> makes, and \<^verbatim>\<open>Put\<close> and \<^verbatim>\<open>Get\<close> keep, the
  invariant: table and list hold the same entries, each under the key of its own item,
  none twice, and the running total is the sum of the recorded sizes in int64
  arithmetic. That total is the sum as a number whenever the sum fits an int64.
  (\<^verbatim>\<open>List\<close> writes no field: \<open>lru_List\<close> returns the listing only.)
\<close>

theorem lru_inv_preserved:
  "lru_inv (lru_New cap) \<and>
   (lru_inv c \<longrightarrow>
      (\<forall>c'. lru_Put c key v = Inr c' \<longrightarrow> lru_inv c') \<and> lru_inv (snd (lru_Get c key)) \<and>
      (- (2 ^ 63) \<le> lru_bytes c \<and> lru_bytes c < 2 ^ 63 \<longrightarrow> sint (lru_size c) = lru_bytes c))"
  by (auto simp: lru_New_inv lru_Put_def Get_inv lru_size_exact
        intro: evictLRU_inv store_inv split: sum.splits)

text \<open>
  An instance: capacity 16, \<^verbatim>\<open>Put("a")\<close>, then a \<^verbatim>\<open>Put\<close> of a value reporting
  \<open>2^63 - 1\<close>, and a \<^verbatim>\<open>Get\<close>.
\<close>

theorem lru_inv_preserved_witness:
  "lru_inv (projr (lru_Put (lru_New 16) ''a'' (IntValue 10))) \<and>
   lru_inv (projr (lru_Put (projr (lru_Put (lru_New 16) ''a'' (IntValue 10))) ''b''
              (UserValue ''big'' 9223372036854775807))) \<and>
   lru_inv (snd (lru_Get (projr (lru_Put (lru_New 16) ''a'' (IntValue 10))) ''a''))"
proof -
  let ?c0 = "lru_New 16"
  let ?c1 = "projr (lru_Put ?c0 ''a'' (IntValue 10))"
  let ?v = "UserValue ''big'' 9223372036854775807"
  have p0: "lru_Put ?c0 ''a'' (IntValue 10) = Inr ?c1" by (simp add: lru_Put_def)
  have p1: "lru_Put ?c1 ''b'' ?v = Inr (projr (lru_Put ?c1 ''b'' ?v))" by (simp add: lru_Put_def)
  have i1: "lru_inv ?c1"
    using lru_inv_preserved [of 16 ?c0 "''a''" "IntValue 10"] p0 by blast
  show ?thesis
    using i1 lru_inv_preserved [of 16 ?c1 "''b''" ?v] lru_inv_preserved [of 16 ?c1 "''a''" ?v] p1
    by blast
qed

text \<open>
  C9 as stated has the running total equal to the sum of the sizes. With the sum read
  as a number this is lost when the total wraps: capacity 16, one entry of size 8 (total
  8, exact), then a value reporting \<open>2^63 - 1\<close>; the field holds \<open>- 2^63 + 7\<close>, the
  entries sum to \<open>2^63 + 7\<close>.
\<close>

theorem lru_inv_exact_counterexample:
  "lru_inv_exact (projr (lru_Put (lru_New 16) ''a'' (IntValue 10))) \<and>
   \<not> isl (lru_Put (projr (lru_Put (lru_New 16) ''a'' (IntValue 10))) ''b''
              (UserValue ''big'' 9223372036854775807)) \<and>
   \<not> lru_inv_exact (projr (lru_Put (projr (lru_Put (lru_New 16) ''a'' (IntValue 10))) ''b''
              (UserValue ''big'' 9223372036854775807)))"
  by (simp add: lru_eval lru_inv_exact_def lru_consistent_def lru_bytes_def lru_entries_def)

subsection \<open>C10: \<^verbatim>\<open>Get\<close> of an absent key\<close>

text \<open>
  C10. \<^verbatim>\<open>Get\<close> on a key the table does not hold returns (nil, false) and the cache
  as it was: every field, and with them entries, recency order and running total.
\<close>

theorem lru_Get_absent:
  "DAList.lookup (lru_table c) key = None \<Longrightarrow> lru_Get c key = ((nil, False), c)"
  by (simp add: lru_Get_def)

text \<open>
  An instance: a cache holding \<open>a\<close>, asked for \<open>b\<close>.
\<close>

theorem lru_Get_absent_witness:
  "DAList.lookup (lru_table (projr (lru_Put (lru_New 16) ''a'' (IntValue 10)))) ''b'' = None \<and>
   lru_Get (projr (lru_Put (lru_New 16) ''a'' (IntValue 10))) ''b''
     = ((nil, False), projr (lru_Put (lru_New 16) ''a'' (IntValue 10)))"
  using lru_Get_absent [of "projr (lru_Put (lru_New 16) ''a'' (IntValue 10))" "''b''"]
  by (simp add: lru_eval)

end
